theory Spec2Isabelle
  imports Complex_Main
begin

section \<open>The adaptive quiz engine of \<^verbatim>\<open>bot.py\<close>\<close>

text \<open>
  A shallow embedding of the selection and progression code of \<^verbatim>\<open>bot.py\<close>.
  The SQLite file \<^verbatim>\<open>bot.db\<close> is an explicit state (one optional table per
  \<^verbatim>\<open>CREATE TABLE\<close>, absent until created), every Python exception is a value,
  the clock and the random generator are parameters (one clock reading for one handler
  call). The streaks are Python integers, \<^typ>\<open>int\<close> here; the 64 bits of an SQLite
  \<^verbatim>\<open>INTEGER\<close> are not modelled. Python floats are modelled as \<^typ>\<open>real\<close>: sums
  and products are exact here, where the program rounds. The Telegram calls are
  reduced to the messages sent, and a handler that raises reports the exception
  without the messages it sent before.
\<close>

subsection \<open>Question bank (\<^verbatim>\<open>QDB\<close>)\<close>

text \<open>One entry of a topic's question list: the keys \<^verbatim>\<open>id\<close>, \<^verbatim>\<open>question\<close>,
  \<^verbatim>\<open>options\<close> and \<^verbatim>\<open>answer\<close>.\<close>

record question =
  q_id :: string
  q_question :: string
  q_options :: "string list"
  q_answer :: string

text \<open>One topic: its \<^verbatim>\<open>theory\<close> text and the dict \<^verbatim>\<open>questions\<close> from a level name
  to a list of questions.\<close>

record topic =
  t_theory :: string
  t_questions :: "string \<rightharpoonup> question list"

text \<open>\<^verbatim>\<open>QDB\<close> is a dict loaded from JSON; its key order is used by
  \<^verbatim>\<open>list(QDB.keys())\<close>, so it is an association list.\<close>

type_synonym qdb = "(string \<times> topic) list"

datatype py_error = KeyError | TypeError | ValueError | IndexError | OperationalError

text \<open>\<^verbatim>\<open>QDB[t]["questions"].get(difficulty, [])\<close>, after \<^verbatim>\<open>QDB[t]\<close> succeeded.\<close>

definition questions_at :: "topic \<Rightarrow> string \<Rightarrow> question list" where
  "questions_at tp lvl = (case t_questions tp lvl of None \<Rightarrow> [] | Some qs \<Rightarrow> qs)"

definition levels :: "string list" where
  "levels = [''easy'', ''medium'', ''hard'']"

subsection \<open>The database\<close>

record user =
  username :: string
  difficulty :: string
  correct_streak :: int
  wrong_streak :: int
  active_topic :: string

record attempt =
  a_user_id :: int
  a_qid :: string
  a_correct :: int
  a_timestamp :: int

text \<open>Table \<^verbatim>\<open>users\<close> is keyed by \<^verbatim>\<open>id\<close>, table \<^verbatim>\<open>topic_stats\<close> by
  \<^verbatim>\<open>(user_id, topic)\<close> with the columns \<^verbatim>\<open>weight\<close> and \<^verbatim>\<open>last_seen\<close>;
  \<^verbatim>\<open>attempts\<close> has no key and grows at its end. \<open>None\<close> is a table that was never
  created: a statement on it raises \<^verbatim>\<open>sqlite3.OperationalError\<close>.\<close>

record db =
  users :: "(int \<rightharpoonup> user) option"
  topic_stats :: "((int \<times> string) \<rightharpoonup> (real \<times> int)) option"
  attempts :: "attempt list option"

definition fresh_db :: db where
  "fresh_db = \<lparr>users = None, topic_stats = None, attempts = None\<rparr>"

text \<open>The loop \<^verbatim>\<open>for topic in QDB.keys(): INSERT OR REPLACE INTO topic_stats ...\<close>.\<close>

fun init_weights ::
  "int \<Rightarrow> int \<Rightarrow> string list \<Rightarrow> ((int \<times> string) \<rightharpoonup> (real \<times> int)) \<Rightarrow> ((int \<times> string) \<rightharpoonup> (real \<times> int))"
where
  "init_weights user_id now [] ts = ts"
| "init_weights user_id now (t # rest) ts = init_weights user_id now rest (ts((user_id, t) \<mapsto> (1.0, now)))"

text \<open>\<^verbatim>\<open>ensure_user\<close>: both \<^verbatim>\<open>CREATE TABLE IF NOT EXISTS\<close>, then the row is inserted
  when \<^verbatim>\<open>SELECT id FROM users WHERE id = ?\<close> finds none. \<^verbatim>\<open>username or ""\<close> is
  the caller's: the parameter is the string already.\<close>

definition ensure_user :: "qdb \<Rightarrow> int \<Rightarrow> db \<Rightarrow> int \<Rightarrow> string \<Rightarrow> db" where
  "ensure_user QDB now d user_id uname =
     (let us = (case users d of None \<Rightarrow> Map.empty | Some m \<Rightarrow> m);
          ts = (case topic_stats d of None \<Rightarrow> Map.empty | Some m \<Rightarrow> m)
      in case us user_id of
           Some row \<Rightarrow> d\<lparr>users := Some us, topic_stats := Some ts\<rparr>
         | None \<Rightarrow>
             d\<lparr>users := Some (us(user_id \<mapsto>
                    \<lparr>username = uname, difficulty = ''easy'', correct_streak = 0,
                     wrong_streak = 0, active_topic = ''Mixed''\<rparr>)),
               topic_stats := Some (init_weights user_id now (map fst QDB) ts)\<rparr>)"

definition get_user :: "db \<Rightarrow> int \<Rightarrow> py_error + user option" where
  "get_user d user_id =
     (case users d of None \<Rightarrow> Inl OperationalError | Some us \<Rightarrow> Inr (us user_id))"

text \<open>\<^verbatim>\<open>update_user(user_id, **kwargs)\<close>: the keyword arguments are the record update
  \<open>f\<close>; \<^verbatim>\<open>UPDATE ... WHERE id = ?\<close> changes nothing when there is no such row.\<close>

definition update_user :: "db \<Rightarrow> int \<Rightarrow> (user \<Rightarrow> user) \<Rightarrow> py_error + db" where
  "update_user d user_id f =
     (case users d of
        None \<Rightarrow> Inl OperationalError
      | Some us \<Rightarrow>
          (case us user_id of
             None \<Rightarrow> Inr d
           | Some u \<Rightarrow> Inr (d\<lparr>users := Some (us(user_id \<mapsto> f u))\<rparr>)))"

definition get_topic_weights :: "db \<Rightarrow> int \<Rightarrow> py_error + (string \<rightharpoonup> real)" where
  "get_topic_weights d user_id =
     (case topic_stats d of
        None \<Rightarrow> Inl OperationalError
      | Some ts \<Rightarrow> Inr (\<lambda>t. map_option fst (ts (user_id, t))))"

definition update_topic_weight :: "int \<Rightarrow> db \<Rightarrow> int \<Rightarrow> string \<Rightarrow> real \<Rightarrow> py_error + db" where
  "update_topic_weight now d user_id t delta =
     (case topic_stats d of
        None \<Rightarrow> Inl OperationalError
      | Some ts \<Rightarrow>
          (let w = (case ts (user_id, t) of Some row \<Rightarrow> fst row | None \<Rightarrow> 1.0);
               w' = max 0.1 (w + delta)
           in Inr (d\<lparr>topic_stats := Some (ts((user_id, t) \<mapsto> (w', now)))\<rparr>)))"

definition record_attempt :: "int \<Rightarrow> db \<Rightarrow> int \<Rightarrow> string \<Rightarrow> bool \<Rightarrow> db" where
  "record_attempt now d user_id qid correct =
     (let as = (case attempts d of None \<Rightarrow> [] | Some l \<Rightarrow> l)
      in d\<lparr>attempts := Some (as @ [\<lparr>a_user_id = user_id, a_qid = qid,
                                     a_correct = (if correct then 1 else 0),
                                     a_timestamp = now\<rparr>])\<rparr>)"

text \<open>The weight a learner has for a topic, when the row exists.\<close>

definition weight_of :: "db \<Rightarrow> int \<Rightarrow> string \<Rightarrow> real option" where
  "weight_of d user_id t =
     (case topic_stats d of None \<Rightarrow> None | Some ts \<Rightarrow> map_option fst (ts (user_id, t)))"

definition user_of :: "db \<Rightarrow> int \<Rightarrow> user option" where
  "user_of d user_id = (case users d of None \<Rightarrow> None | Some us \<Rightarrow> us user_id)"

subsection \<open>Question logic\<close>

text \<open>A pool entry is the tuple \<^verbatim>\<open>(t, q, weights.get(t, 1.0))\<close>.\<close>

type_synonym entry = "string \<times> question \<times> real"

text \<open>The loop \<^verbatim>\<open>for t in topics\<close> of \<^verbatim>\<open>choose_question\<close>: \<^verbatim>\<open>QDB[t]\<close> raises
  \<^verbatim>\<open>KeyError\<close> for a name that is no key, and the entries are appended in order.\<close>

fun build_pool :: "qdb \<Rightarrow> string \<Rightarrow> (string \<rightharpoonup> real) \<Rightarrow> string list \<Rightarrow> entry list \<Rightarrow> py_error + entry list"
where
  "build_pool QDB dif weights [] pool = Inr pool"
| "build_pool QDB dif weights (t # ts) pool =
     (case map_of QDB t of
        None \<Rightarrow> Inl KeyError
      | Some tp \<Rightarrow>
          build_pool QDB dif weights ts
            (pool @ map (\<lambda>q. (t, q, case weights t of None \<Rightarrow> 1.0 | Some w \<Rightarrow> w))
                        (questions_at tp dif)))"

text \<open>The loop \<^verbatim>\<open>for t, q, w in pool\<close>: \<open>None\<close> when it ends without returning.\<close>

fun walk :: "real \<Rightarrow> real \<Rightarrow> entry list \<Rightarrow> (string \<times> question) option" where
  "walk r upto' [] = None"
| "walk r upto' ((t, q, w) # rest) =
     (if upto' + w \<ge> r then Some (t, q) else walk r (upto' + w) rest)"

text \<open>What \<^verbatim>\<open>choose_question\<close> returns when it returns a tuple: the pair \<^verbatim>\<open>t, q\<close> of
  the loop, or the element \<^verbatim>\<open>random.choice(pool)\<close> picks, which is a pool entry
  with its weight.\<close>

datatype chosen = Chosen2 string question | Chosen3 string question real

text \<open>\<open>rnd\<close> is the value of \<^verbatim>\<open>random.random()\<close>, in \<open>[0, 1)\<close>; \<open>pick\<close> is the
  random source of \<^verbatim>\<open>random.choice\<close>, which indexes the pool below its length.\<close>

definition choose_question ::
  "qdb \<Rightarrow> string \<Rightarrow> string \<Rightarrow> (string \<rightharpoonup> real) \<Rightarrow> real \<Rightarrow> nat \<Rightarrow> py_error + chosen option"
where
  "choose_question QDB t dif weights rnd pick =
     (case build_pool QDB dif weights (if t \<noteq> ''Mixed'' then [t] else map fst QDB) [] of
        Inl e \<Rightarrow> Inl e
      | Inr pool \<Rightarrow>
          if pool = [] then Inr None
          else
            (let total = sum_list (map (\<lambda>(t, q, w). w) pool);
                 r = rnd * total
             in case walk r 0 pool of
                  Some (t', q) \<Rightarrow> Inr (Some (Chosen2 t' q))
                | None \<Rightarrow>
                    (case pool ! (pick mod length pool) of
                       (t', q, w) \<Rightarrow> Inr (Some (Chosen3 t' q w)))))"

text \<open>The messages a handler sends, without their wording.\<close>

datatype reply =
    NoQuestions
  | Ask string question
  | Skipped
  | QuestionNotFound
  | Correct
  | Wrong string
  | DifficultyIncreased string
  | DifficultyDecreased string
  | Theory string string
  | Starting

text \<open>\<^verbatim>\<open>send_question\<close>: \<^verbatim>\<open>t, q = chosen\<close> raises \<^verbatim>\<open>ValueError\<close> on a tuple of
  three.\<close>

definition send_question ::
  "qdb \<Rightarrow> db \<Rightarrow> int \<Rightarrow> string \<Rightarrow> string \<Rightarrow> real \<Rightarrow> nat \<Rightarrow> py_error + reply"
where
  "send_question QDB d user_id t dif rnd pick =
     (case get_topic_weights d user_id of
        Inl e \<Rightarrow> Inl e
      | Inr weights \<Rightarrow>
          (case choose_question QDB t dif weights rnd pick of
             Inl e \<Rightarrow> Inl e
           | Inr None \<Rightarrow> Inr NoQuestions
           | Inr (Some (Chosen2 t' q)) \<Rightarrow> Inr (Ask t' q)
           | Inr (Some (Chosen3 t' q w)) \<Rightarrow> Inl ValueError))"

subsection \<open>Handlers\<close>

text \<open>A handler returns the messages it sent, or the exception that ended it, and the
  database as committed up to there.\<close>

type_synonym outcome = "(py_error + reply list) \<times> db"

text \<open>\<^verbatim>\<open>cb_start_quiz\<close>, with \<^verbatim>\<open>topic = callback.data.split("|")[1]\<close> as a parameter.\<close>

definition cb_start_quiz ::
  "qdb \<Rightarrow> int \<Rightarrow> real \<Rightarrow> nat \<Rightarrow> db \<Rightarrow> int \<Rightarrow> string \<Rightarrow> string \<Rightarrow> outcome"
where
  "cb_start_quiz QDB now rnd pick d user_id uname t =
     (let d1 = ensure_user QDB now d user_id uname in
      case update_user d1 user_id (\<lambda>r. r\<lparr>active_topic := t\<rparr>) of
        Inl e \<Rightarrow> (Inl e, d1)
      | Inr d2 \<Rightarrow>
          (case get_user d2 user_id of
             Inl e \<Rightarrow> (Inl e, d2)
           | Inr None \<Rightarrow> (Inl TypeError, d2)
           | Inr (Some u) \<Rightarrow>
               (case (if t \<noteq> ''Mixed''
                      then (case map_of QDB t of
                              None \<Rightarrow> Inl KeyError
                            | Some tp \<Rightarrow> Inr [Theory t (t_theory tp)])
                      else Inr []) of
                  Inl e \<Rightarrow> (Inl e, d2)
                | Inr msgs \<Rightarrow>
                    (case send_question QDB d2 user_id t (difficulty u) rnd pick of
                       Inl e \<Rightarrow> (Inl e, d2)
                     | Inr m \<Rightarrow> (Inr (msgs @ [Starting, m]), d2)))))"

text \<open>The generator of \<^verbatim>\<open>cb_answer\<close>:
  \<^verbatim>\<open>next((qq for lvl in ["easy", "medium", "hard"]
          for qq in QDB[topic]["questions"].get(lvl, []) if qq["id"] == qid), None)\<close>.\<close>

definition find_question :: "qdb \<Rightarrow> string \<Rightarrow> string \<Rightarrow> py_error + question option" where
  "find_question QDB t qid =
     (case map_of QDB t of
        None \<Rightarrow> Inl KeyError
      | Some tp \<Rightarrow>
          Inr (find (\<lambda>qq. q_id qq = qid)
                 (concat (map (questions_at tp) [''easy'', ''medium'', ''hard'']))))"

text \<open>Lines 281 to 290 of \<^verbatim>\<open>cb_answer\<close>: the attempt is recorded first, then the
  streaks are written from \<open>u\<close>, the row read when the handler started
  (\<^verbatim>\<open>u["correct_streak"]\<close> raises \<^verbatim>\<open>TypeError\<close> when \<open>u\<close> is \<^verbatim>\<open>None\<close>), then the
  weight is adjusted.\<close>

definition apply_answer ::
  "int \<Rightarrow> db \<Rightarrow> int \<Rightarrow> string \<Rightarrow> string \<Rightarrow> user option \<Rightarrow> question \<Rightarrow> string \<Rightarrow> (py_error + reply) \<times> db"
where
  "apply_answer now d user_id t qid u q selected =
     (let correct = (selected = q_answer q);
          d1 = record_attempt now d user_id qid correct
      in case u of
           None \<Rightarrow> (Inl TypeError, d1)
         | Some uu \<Rightarrow>
             (case update_user d1 user_id
                     (if correct
                      then (\<lambda>r. r\<lparr>correct_streak := correct_streak uu + 1, wrong_streak := 0\<rparr>)
                      else (\<lambda>r. r\<lparr>correct_streak := 0, wrong_streak := wrong_streak uu + 1\<rparr>)) of
                Inl e \<Rightarrow> (Inl e, d1)
              | Inr d2 \<Rightarrow>
                  (case update_topic_weight now d2 user_id t (if correct then - 0.3 else 0.5) of
                     Inl e \<Rightarrow> (Inl e, d2)
                   | Inr d3 \<Rightarrow> (Inr (if correct then Correct else Wrong (q_answer q)), d3))))"

text \<open>\<^verbatim>\<open>levels.index(x)\<close>: the first position of \<open>x\<close>, \<^verbatim>\<open>ValueError\<close> (here \<open>None\<close>)
  when there is none.\<close>

fun index_of :: "'a list \<Rightarrow> 'a \<Rightarrow> nat option" where
  "index_of [] x = None"
| "index_of (y # ys) x = (if y = x then Some 0 else map_option Suc (index_of ys x))"

text \<open>The body of either \<^verbatim>\<open>if\<close> of lines 295 to 300: \<^verbatim>\<open>update_user(user_id,
  difficulty=lvl)\<close>, then the message that names the new level.\<close>

definition set_difficulty ::
  "db \<Rightarrow> int \<Rightarrow> string \<Rightarrow> (string \<Rightarrow> reply) \<Rightarrow> py_error + reply list \<times> db"
where
  "set_difficulty d user_id lvl msg =
     (case update_user d user_id (\<lambda>r. r\<lparr>difficulty := lvl\<rparr>) of
        Inl e \<Rightarrow> Inl e
      | Inr d' \<Rightarrow> Inr ([msg lvl], d'))"

text \<open>Lines 292 to 300 of \<^verbatim>\<open>cb_answer\<close>: the row is read again, and the two
  \<^verbatim>\<open>if\<close> statements run one after the other on that one reading. The row read is
  returned with the messages: the next question is asked with its values.\<close>

definition adjust_difficulty :: "db \<Rightarrow> int \<Rightarrow> (py_error + reply list \<times> user) \<times> db" where
  "adjust_difficulty d user_id =
     (case get_user d user_id of
        Inl e \<Rightarrow> (Inl e, d)
      | Inr None \<Rightarrow> (Inl TypeError, d)
      | Inr (Some u) \<Rightarrow>
          (case index_of levels (difficulty u) of
             None \<Rightarrow> (Inl ValueError, d)
           | Some idx \<Rightarrow>
               (case (if correct_streak u \<ge> 3 \<and> idx < 2
                      then set_difficulty d user_id (levels ! (idx + 1)) DifficultyIncreased
                      else Inr ([], d)) of
                  Inl e \<Rightarrow> (Inl e, d)
                | Inr (m1, d1) \<Rightarrow>
                    (case (if wrong_streak u \<ge> 2 \<and> idx > 0
                           then set_difficulty d1 user_id (levels ! (idx - 1)) DifficultyDecreased
                           else Inr ([], d1)) of
                       Inl e \<Rightarrow> (Inl e, d1)
                     | Inr (m2, d2) \<Rightarrow> (Inr (m1 @ m2, u), d2)))))"

text \<open>\<^verbatim>\<open>cb_answer\<close>, with \<^verbatim>\<open>parts = callback.data.split("|")\<close> as a parameter; an
  index beyond the list raises \<^verbatim>\<open>IndexError\<close>.\<close>

definition cb_answer ::
  "qdb \<Rightarrow> int \<Rightarrow> real \<Rightarrow> nat \<Rightarrow> db \<Rightarrow> int \<Rightarrow> string list \<Rightarrow> outcome"
where
  "cb_answer QDB now rnd pick d user_id parts =
     (case parts of
        cmd # t # qid # rest \<Rightarrow>
          (case get_user d user_id of
             Inl e \<Rightarrow> (Inl e, d)
           | Inr u \<Rightarrow>
               if cmd = ''skip'' then
                 (case u of
                    None \<Rightarrow> (Inl TypeError, d)
                  | Some uu \<Rightarrow>
                      (case send_question QDB d user_id (active_topic uu) (difficulty uu) rnd pick of
                         Inl e \<Rightarrow> (Inl e, d)
                       | Inr m \<Rightarrow> (Inr [Skipped, m], d)))
               else
                 (case rest of
                    [] \<Rightarrow> (Inl IndexError, d)
                  | selected # _ \<Rightarrow>
                      (case find_question QDB t qid of
                         Inl e \<Rightarrow> (Inl e, d)
                       | Inr None \<Rightarrow> (Inr [QuestionNotFound], d)
                       | Inr (Some q) \<Rightarrow>
                           (case apply_answer now d user_id t qid u q selected of
                              (Inl e, d1) \<Rightarrow> (Inl e, d1)
                            | (Inr m, d1) \<Rightarrow>
                                (case adjust_difficulty d1 user_id of
                                   (Inl e, d2) \<Rightarrow> (Inl e, d2)
                                 | (Inr (ms, u'), d2) \<Rightarrow>
                                     (case send_question QDB d2 user_id (active_topic u')
                                             (difficulty u') rnd pick of
                                        Inl e \<Rightarrow> (Inl e, d2)
                                      | Inr m' \<Rightarrow> (Inr (m # ms @ [m']), d2)))))))
      | _ \<Rightarrow> (Inl IndexError, d))"

text \<open>\<^verbatim>\<open>submitAnswer(id, topic, questionId, selectedOption)\<close> of the specification is the
  handler on the callback data \<^verbatim>\<open>answer|topic|questionId|selectedOption\<close>.\<close>

definition submit_answer ::
  "qdb \<Rightarrow> int \<Rightarrow> real \<Rightarrow> nat \<Rightarrow> db \<Rightarrow> int \<Rightarrow> string \<Rightarrow> string \<Rightarrow> string \<Rightarrow> outcome"
where
  "submit_answer QDB now rnd pick d user_id t qid selected =
     cb_answer QDB now rnd pick d user_id [''answer'', t, qid, selected]"

subsection \<open>Notions for the properties\<close>

text \<open>The two \<^verbatim>\<open>update_user\<close> calls of lines 284 and 288, as one update of the row
  read when the handler started.\<close>

definition streak_update :: "bool \<Rightarrow> user \<Rightarrow> user" where
  "streak_update correct u =
     (if correct then u\<lparr>correct_streak := correct_streak u + 1, wrong_streak := 0\<rparr>
      else u\<lparr>correct_streak := 0, wrong_streak := wrong_streak u + 1\<rparr>)"

text \<open>The databases the program can produce: every handler that writes (\<^verbatim>\<open>ensure_user\<close>
  from \<^verbatim>\<open>/start\<close> and the menus, \<^verbatim>\<open>cb_start_quiz\<close>, \<^verbatim>\<open>cb_answer\<close>), on any
  input, and \<^verbatim>\<open>update_topic_weight\<close> called with any delta.\<close>

inductive reachable :: "qdb \<Rightarrow> db \<Rightarrow> bool" for QDB :: qdb where
  fresh: "reachable QDB fresh_db"
| ensure: "reachable QDB d \<Longrightarrow> reachable QDB (ensure_user QDB now d user_id uname)"
| start_quiz: "reachable QDB d \<Longrightarrow> reachable QDB (snd (cb_start_quiz QDB now rnd pick d user_id uname t))"
| answer: "reachable QDB d \<Longrightarrow> reachable QDB (snd (cb_answer QDB now rnd pick d user_id parts))"
| adjust: "reachable QDB d \<Longrightarrow> update_topic_weight now d user_id t delta = Inr d' \<Longrightarrow> reachable QDB d'"

text \<open>A property of every row of \<^verbatim>\<open>users\<close>.\<close>

definition all_users :: "(user \<Rightarrow> bool) \<Rightarrow> db \<Rightarrow> bool" where
  "all_users P d = (\<forall>user_id u. user_of d user_id = Some u \<longrightarrow> P u)"

text \<open>A property of a row that every write of the handlers keeps: the two streak
  updates, a level of \<^verbatim>\<open>levels\<close> as the difficulty, a new active topic, and the
  row \<^verbatim>\<open>ensure_user\<close> inserts.\<close>

definition row_invariant :: "(user \<Rightarrow> bool) \<Rightarrow> bool" where
  "row_invariant P =
     ((\<forall>r c. P r \<longrightarrow> P (r\<lparr>correct_streak := c, wrong_streak := 0\<rparr>)) \<and>
      (\<forall>r w. P r \<longrightarrow> P (r\<lparr>correct_streak := 0, wrong_streak := w\<rparr>)) \<and>
      (\<forall>r i. P r \<longrightarrow> i < 3 \<longrightarrow> P (r\<lparr>difficulty := levels ! i\<rparr>)) \<and>
      (\<forall>r a. P r \<longrightarrow> P (r\<lparr>active_topic := a\<rparr>)) \<and>
      (\<forall>n. P \<lparr>username = n, difficulty = ''easy'', correct_streak = 0, wrong_streak = 0,
              active_topic = ''Mixed''\<rparr>))"

text \<open>Every recorded weight is at least \<open>0.1\<close>.\<close>

definition weights_ok :: "db \<Rightarrow> bool" where
  "weights_ok d = (\<forall>user_id t w. weight_of d user_id t = Some w \<longrightarrow> 0.1 \<le> w)"

text \<open>The difficulty lines 295 to 300 leave for a row read at position \<open>idx\<close> of
  \<^verbatim>\<open>levels\<close>: the second \<^verbatim>\<open>if\<close> writes last.\<close>

definition difficulty_after :: "user \<Rightarrow> nat \<Rightarrow> string" where
  "difficulty_after u idx =
     (if wrong_streak u \<ge> 2 \<and> idx > 0 then levels ! (idx - 1)
      else if correct_streak u \<ge> 3 \<and> idx < 2 then levels ! (idx + 1)
      else difficulty u)"

text \<open>A run of answers of one learner: each with its clock reading, its random values,
  and the topic, question id and option of the callback data.\<close>

type_synonym submission = "int \<times> real \<times> nat \<times> string \<times> string \<times> string"

fun submit_all :: "qdb \<Rightarrow> int \<Rightarrow> submission list \<Rightarrow> db \<Rightarrow> db" where
  "submit_all QDB user_id [] d = d"
| "submit_all QDB user_id ((now, rnd, pick, t, qid, selected) # rest) d =
     submit_all QDB user_id rest (snd (submit_answer QDB now rnd pick d user_id t qid selected))"

text \<open>The question of a submission is found in its topic, and the option is the right
  one (\<open>correct\<close>) or not (\<open>\<not> correct\<close>).\<close>

definition answered :: "qdb \<Rightarrow> bool \<Rightarrow> submission \<Rightarrow> bool" where
  "answered QDB correct s =
     (case s of (now, rnd, pick, t, qid, selected) \<Rightarrow>
        (case find_question QDB t qid of
           Inr (Some q) \<Rightarrow> (selected = q_answer q) = correct
         | _ \<Rightarrow> False))"

text \<open>A submission for the topic \<open>t\<close>.\<close>

definition on_topic :: "string \<Rightarrow> submission \<Rightarrow> bool" where
  "on_topic t s = (case s of (now, rnd, pick, t', qid, selected) \<Rightarrow> t' = t)"

text \<open>What lines 283 to 300 do to the row of the learner on a correct or a wrong
  answer: the streaks, then the difficulty.\<close>

definition progress :: "bool \<Rightarrow> user \<Rightarrow> user" where
  "progress correct u =
     (let u1 = streak_update correct u
      in case index_of levels (difficulty u1) of
           Some idx \<Rightarrow> u1\<lparr>difficulty := difficulty_after u1 idx\<rparr>
         | None \<Rightarrow> u1)"

text \<open>What \<^verbatim>\<open>update_topic_weight\<close> makes of a weight on a correct or a wrong
  answer.\<close>

definition reweigh :: "bool \<Rightarrow> real \<Rightarrow> real" where
  "reweigh correct w = max 0.1 (w + (if correct then - 0.3 else 0.5))"

text \<open>\<^verbatim>\<open>row[0] if row else 1.0\<close>.\<close>

definition weight_or_default :: "db \<Rightarrow> int \<Rightarrow> string \<Rightarrow> real" where
  "weight_or_default d user_id t = (case weight_of d user_id t of Some w \<Rightarrow> w | None \<Rightarrow> 1.0)"

text \<open>Both tables of \<^verbatim>\<open>ensure_user\<close> exist as soon as \<^verbatim>\<open>users\<close> does.\<close>

definition schema_ok :: "db \<Rightarrow> bool" where
  "schema_ok d = (users d \<noteq> None \<longrightarrow> topic_stats d \<noteq> None)"

text \<open>The entries \<^verbatim>\<open>choose_question\<close> appends for one topic.\<close>

definition topic_entries :: "qdb \<Rightarrow> string \<Rightarrow> (string \<rightharpoonup> real) \<Rightarrow> string \<Rightarrow> entry list" where
  "topic_entries QDB dif weights t =
     (case map_of QDB t of
        None \<Rightarrow> []
      | Some tp \<Rightarrow> map (\<lambda>q. (t, q, case weights t of None \<Rightarrow> 1.0 | Some w \<Rightarrow> w))
                     (questions_at tp dif))"

text \<open>The topics in scope: \<^verbatim>\<open>[topic] if topic != "Mixed" else list(QDB.keys())\<close>.\<close>

definition scope :: "qdb \<Rightarrow> string \<Rightarrow> string list" where
  "scope QDB t = (if t \<noteq> ''Mixed'' then [t] else map fst QDB)"

text \<open>The question of a result of \<^verbatim>\<open>choose_question\<close>, with its topic.\<close>

fun chosen_question :: "chosen \<Rightarrow> string \<times> question" where
  "chosen_question (Chosen2 t q) = (t, q)"
| "chosen_question (Chosen3 t q w) = (t, q)"

text \<open>The components of a pool entry, the sum \<^verbatim>\<open>total\<close> of the weights of a pool, and
  the running total before the entry at position \<open>i\<close>.\<close>

definition entry_question :: "entry \<Rightarrow> string \<times> question" where
  "entry_question e = (case e of (t, q, w) \<Rightarrow> (t, q))"

definition entry_weight :: "entry \<Rightarrow> real" where
  "entry_weight e = (case e of (t, q, w) \<Rightarrow> w)"

definition total_weight :: "entry list \<Rightarrow> real" where
  "total_weight pool = sum_list (map (\<lambda>(t, q, w). w) pool)"

definition cum :: "entry list \<Rightarrow> nat \<Rightarrow> real" where
  "cum pool i = total_weight (take i pool)"

subsection \<open>A small bank and a new learner\<close>

text \<open>Two topics with one easy question each, and the database after the first
  \<^verbatim>\<open>ensure_user\<close> of learner 1 on an empty file.\<close>

definition Q1 :: question where
  "Q1 = \<lparr>q_id = ''Q1'', q_question = ''first'', q_options = [''a'', ''b''], q_answer = ''a''\<rparr>"

definition Q2 :: question where
  "Q2 = \<lparr>q_id = ''Q2'', q_question = ''second'', q_options = [''c'', ''d''], q_answer = ''d''\<rparr>"

definition bank :: qdb where
  "bank = [(''A'', \<lparr>t_theory = ''about A'', t_questions = [''easy'' \<mapsto> [Q1]]\<rparr>),
           (''B'', \<lparr>t_theory = ''about B'', t_questions = [''easy'' \<mapsto> [Q2]]\<rparr>)]"

definition new_learner :: db where
  "new_learner = ensure_user bank 100 fresh_db 1 ''U1''"

text \<open>The new learner after four correct answers to \<open>Q1\<close>.\<close>

definition four_correct :: db where
  "four_correct = submit_all bank 1 (replicate 4 (200, 0, 0, ''A'', ''Q1'', ''a'')) new_learner"

text \<open>A \<^verbatim>\<open>topic_stats\<close> table with a negative weight, as a file written by another
  program could hold.\<close>

definition negative_weight_db :: db where
  "negative_weight_db =
     \<lparr>users = Some Map.empty, topic_stats = Some [(1, ''A'') \<mapsto> (- 1, 0)], attempts = None\<rparr>"

text \<open>The pool of \<^verbatim>\<open>Mixed\<close> at \<^verbatim>\<open>easy\<close> in the small bank with the weights 3.0 for
  \<open>A\<close> and 1.0 for \<open>B\<close>.\<close>

definition pool31 :: "entry list" where
  "pool31 = [(''A'', Q1, 3), (''B'', Q2, 1)]"

section \<open>Properties\<close>

subsection \<open>What each operation does to the tables\<close>

lemma user_of_record_attempt [simp]:
  "user_of (record_attempt now d user_id qid c) = user_of d"
  by (rule ext) (simp add: user_of_def record_attempt_def Let_def)

lemma weight_of_record_attempt [simp]:
  "weight_of (record_attempt now d user_id qid c) = weight_of d"
  by (intro ext) (simp add: weight_of_def record_attempt_def Let_def)

lemma user_of_update_user:
  "update_user d user_id f = Inr d' \<Longrightarrow>
     user_of d' = (user_of d)(user_id := map_option f (user_of d user_id))"
  by (rule ext) (auto simp: update_user_def user_of_def split: option.splits)

lemma weight_of_update_user:
  "update_user d user_id f = Inr d' \<Longrightarrow> weight_of d' = weight_of d"
  by (intro ext) (auto simp: update_user_def weight_of_def split: option.splits)

lemma user_of_update_topic_weight:
  "update_topic_weight now d user_id t delta = Inr d' \<Longrightarrow> user_of d' = user_of d"
  by (rule ext) (auto simp: update_topic_weight_def user_of_def Let_def split: option.splits)

lemma all_users_update_user:
  "all_users P d \<Longrightarrow> update_user d user_id f = Inr d' \<Longrightarrow> (\<And>r. P r \<Longrightarrow> P (f r)) \<Longrightarrow>
     all_users P d'"
  by (auto simp: all_users_def user_of_update_user split: if_splits)

lemma all_users_update_topic_weight:
  "all_users P d \<Longrightarrow> update_topic_weight now d user_id t delta = Inr d' \<Longrightarrow> all_users P d'"
  by (simp add: all_users_def user_of_update_topic_weight)

lemma all_users_record_attempt:
  "all_users P d \<Longrightarrow> all_users P (record_attempt now d user_id qid c)"
  by (simp add: all_users_def)

lemma all_users_apply_answer:
  assumes "all_users P d" "row_invariant P"
  shows "all_users P (snd (apply_answer now d user_id t qid u q selected))"
proof -
  let ?c = "selected = q_answer q"
  let ?d1 = "record_attempt now d user_id qid ?c"
  have d1: "all_users P ?d1" using assms(1) by (rule all_users_record_attempt)
  show ?thesis
  proof (cases u)
    case None
    then show ?thesis using d1 by (simp add: apply_answer_def Let_def)
  next
    case (Some uu)
    let ?f = "if ?c then (\<lambda>r. r\<lparr>correct_streak := correct_streak uu + 1, wrong_streak := 0\<rparr>)
              else (\<lambda>r. r\<lparr>correct_streak := 0, wrong_streak := wrong_streak uu + 1\<rparr>)"
    have f: "P r \<Longrightarrow> P (?f r)" for r
      using assms(2) by (simp add: row_invariant_def)
    show ?thesis
    proof (cases "update_user ?d1 user_id ?f")
      case (Inl e)
      then show ?thesis using d1 Some by (simp add: apply_answer_def Let_def)
    next
      case (Inr d2)
      have d2: "all_users P d2" using d1 Inr f by (rule all_users_update_user)
      show ?thesis
      proof (cases "update_topic_weight now d2 user_id t (if ?c then - 0.3 else 0.5)")
        case (Inl e)
        then show ?thesis using d2 Some Inr by (simp add: apply_answer_def Let_def)
      next
        case (Inr d3)
        have "all_users P d3" using d2 Inr by (rule all_users_update_topic_weight)
        then show ?thesis using Some \<open>update_user ?d1 user_id ?f = Inr d2\<close> Inr
          by (simp add: apply_answer_def Let_def)
      qed
    qed
  qed
qed

lemma index_of_less: "index_of xs x = Some i \<Longrightarrow> i < length xs \<and> xs ! i = x"
  by (induction xs arbitrary: i) (auto split: if_splits)

lemma index_of_levels: "index_of levels x = Some i \<Longrightarrow> i < 3 \<and> levels ! i = x"
  using index_of_less [of levels x i] by (simp add: levels_def)

lemma all_users_set_difficulty:
  assumes "all_users P d" "row_invariant P" "i < 3"
    and "set_difficulty d user_id (levels ! i) msg = Inr (ms, d')"
  shows "all_users P d'"
proof -
  from assms(4) have "update_user d user_id (\<lambda>r. r\<lparr>difficulty := levels ! i\<rparr>) = Inr d'"
    by (simp add: set_difficulty_def split: sum.splits)
  moreover have "P r \<Longrightarrow> P (r\<lparr>difficulty := levels ! i\<rparr>)" for r
    using assms(2,3) by (simp add: row_invariant_def)
  ultimately show ?thesis using assms(1) by (auto intro: all_users_update_user)
qed

lemma all_users_adjust_difficulty:
  assumes "all_users P d" "row_invariant P"
  shows "all_users P (snd (adjust_difficulty d user_id))"
proof (cases "get_user d user_id")
  case (Inl e)
  then show ?thesis using assms(1) by (simp add: adjust_difficulty_def)
next
  case (Inr uo)
  show ?thesis
  proof (cases uo)
    case None
    then show ?thesis using assms(1) Inr by (simp add: adjust_difficulty_def)
  next
    case (Some u)
    note u = this
    show ?thesis
    proof (cases "index_of levels (difficulty u)")
      case None
      then show ?thesis using assms(1) Inr u by (simp add: adjust_difficulty_def)
    next
      case (Some idx)
      then have idx: "idx < 3" by (simp add: index_of_levels)
      let ?up = "if correct_streak u \<ge> 3 \<and> idx < 2
                 then set_difficulty d user_id (levels ! (idx + 1)) DifficultyIncreased
                 else Inr ([], d)"
      show ?thesis
      proof (cases ?up)
        case (Inl e)
        then show ?thesis using assms(1) Inr u Some by (simp add: adjust_difficulty_def)
      next
        case up: (Inr r1)
        obtain m1 d1 where r1: "r1 = (m1, d1)" by (cases r1)
        have d1: "all_users P d1"
          using up r1 assms all_users_set_difficulty [of P d "idx + 1" user_id DifficultyIncreased m1 d1]
          by (auto split: if_splits)
        let ?down = "if wrong_streak u \<ge> 2 \<and> idx > 0
                     then set_difficulty d1 user_id (levels ! (idx - 1)) DifficultyDecreased
                     else Inr ([], d1)"
        show ?thesis
        proof (cases ?down)
          case (Inl e)
          then show ?thesis using d1 Inr u Some up r1 by (simp add: adjust_difficulty_def)
        next
          case down: (Inr r2)
          obtain m2 d2 where r2: "r2 = (m2, d2)" by (cases r2)
          have "all_users P d2"
            using down r2 d1 assms(2) idx
              all_users_set_difficulty [of P d1 "idx - 1" user_id DifficultyDecreased m2 d2]
            by (auto split: if_splits)
          then show ?thesis using Inr u Some up r1 down r2 by (simp add: adjust_difficulty_def)
        qed
      qed
    qed
  qed
qed

lemma all_users_cb_answer:
  assumes "all_users P d" "row_invariant P"
  shows "all_users P (snd (cb_answer QDB now rnd pick d user_id parts))"
proof -
  have a: "all_users P (snd (apply_answer now d user_id t qid u q selected))" for t qid u q selected
    using assms by (rule all_users_apply_answer)
  have b: "all_users P d1 \<Longrightarrow> all_users P (snd (adjust_difficulty d1 user_id))" for d1
    using assms(2) by (simp add: all_users_adjust_difficulty)
  have c: "apply_answer now d user_id t qid u q selected = (x, d1) \<Longrightarrow> all_users P d1"
    for t qid u q selected x d1
    using a [of t qid u q selected] by simp
  have e: "apply_answer now d user_id t qid u q selected = (x, d1) \<Longrightarrow>
           adjust_difficulty d1 user_id = (y, d2) \<Longrightarrow> all_users P d2"
    for t qid u q selected x d1 y d2
    using b [of d1] c [of t qid u q selected x d1] by simp
  show ?thesis
    using assms(1)
    by (auto simp: cb_answer_def split: list.splits sum.splits option.splits prod.splits
        dest: c e)
qed

lemma user_of_ensure_user:
  "user_of (ensure_user QDB now d user_id uname) =
     (case user_of d user_id of
        Some row \<Rightarrow> user_of d
      | None \<Rightarrow> (user_of d)(user_id \<mapsto>
          \<lparr>username = uname, difficulty = ''easy'', correct_streak = 0,
           wrong_streak = 0, active_topic = ''Mixed''\<rparr>))"
  by (rule ext) (auto simp: ensure_user_def user_of_def Let_def split: option.splits)

lemma all_users_ensure_user:
  assumes "all_users P d" "row_invariant P"
  shows "all_users P (ensure_user QDB now d user_id uname)"
  using assms
  by (auto simp: all_users_def user_of_ensure_user row_invariant_def split: option.splits if_splits)

lemma all_users_cb_start_quiz:
  assumes "all_users P d" "row_invariant P"
  shows "all_users P (snd (cb_start_quiz QDB now rnd pick d user_id uname t))"
proof -
  let ?d1 = "ensure_user QDB now d user_id uname"
  have d1: "all_users P ?d1" using assms by (rule all_users_ensure_user)
  have f: "P r \<Longrightarrow> P (r\<lparr>active_topic := a\<rparr>)" for r a
    using assms(2) by (simp add: row_invariant_def)
  have d2: "update_user ?d1 user_id (\<lambda>r. r\<lparr>active_topic := a\<rparr>) = Inr d2 \<Longrightarrow> all_users P d2"
    for d2 a
    using d1 f by (auto intro: all_users_update_user)
  show ?thesis
    using d1
    by (auto simp: cb_start_quiz_def Let_def split: sum.splits option.splits dest: d2)
qed

lemma all_users_fresh: "all_users P fresh_db"
  by (simp add: all_users_def user_of_def fresh_db_def)

lemma reachable_all_users:
  assumes "reachable QDB d" "row_invariant P"
  shows "all_users P d"
  using assms
proof (induction rule: reachable.induct)
  case fresh
  show ?case by (rule all_users_fresh)
next
  case (ensure d now user_id uname)
  then show ?case by (simp add: all_users_ensure_user)
next
  case (start_quiz d now rnd pick user_id uname t)
  then show ?case by (simp add: all_users_cb_start_quiz)
next
  case (answer d now rnd pick user_id parts)
  then show ?case by (simp add: all_users_cb_answer)
next
  case (adjust d now user_id t delta d')
  then show ?case by (auto intro: all_users_update_topic_weight)
qed

lemma weight_of_update_topic_weight:
  "update_topic_weight now d user_id t delta = Inr d' \<Longrightarrow>
     weight_of d' user_id' t' =
       (if user_id' = user_id \<and> t' = t
        then Some (max 0.1 ((case weight_of d user_id t of Some w \<Rightarrow> w | None \<Rightarrow> 1.0) + delta))
        else weight_of d user_id' t')"
  by (auto simp: update_topic_weight_def weight_of_def Let_def split: option.splits)

lemma init_weights_apply:
  "init_weights user_id now ts m (user_id', t') =
     (if user_id' = user_id \<and> t' \<in> set ts then Some (1.0, now) else m (user_id', t'))"
  by (induction ts arbitrary: m) auto

lemma weight_of_ensure_user:
  "weight_of (ensure_user QDB now d user_id uname) user_id' t' =
     (if user_of d user_id = None \<and> user_id' = user_id \<and> t' \<in> fst ` set QDB
      then Some 1.0 else weight_of d user_id' t')"
  by (auto simp: ensure_user_def weight_of_def user_of_def Let_def init_weights_apply
      split: option.splits)

lemma weights_ok_update_topic_weight:
  assumes "weights_ok d" "update_topic_weight now d user_id t delta = Inr d'"
  shows "weights_ok d'"
  unfolding weights_ok_def
proof (intro allI impI)
  fix user_id' t' w
  assume w: "weight_of d' user_id' t' = Some w"
  show "0.1 \<le> w"
  proof (cases "user_id' = user_id \<and> t' = t")
    case True
    with w assms(2) have "w = max 0.1 ((case weight_of d user_id t of Some w \<Rightarrow> w | None \<Rightarrow> 1.0) + delta)"
      by (simp add: weight_of_update_topic_weight)
    then show ?thesis by (simp only: max.cobounded1)
  next
    case False
    with w assms(2) have "weight_of d user_id' t' = Some w"
      by (auto simp: weight_of_update_topic_weight split: if_splits)
    with assms(1) show ?thesis unfolding weights_ok_def by blast
  qed
qed

lemma weights_ok_ensure_user:
  "weights_ok d \<Longrightarrow> weights_ok (ensure_user QDB now d user_id uname)"
  by (auto simp: weights_ok_def weight_of_ensure_user split: if_splits)

lemma weights_ok_update_user:
  "weights_ok d \<Longrightarrow> update_user d user_id f = Inr d' \<Longrightarrow> weights_ok d'"
  by (simp add: weights_ok_def weight_of_update_user)

lemma weights_ok_record_attempt:
  "weights_ok d \<Longrightarrow> weights_ok (record_attempt now d user_id qid c)"
  by (simp add: weights_ok_def)

lemma weights_ok_apply_answer:
  assumes "weights_ok d"
  shows "weights_ok (snd (apply_answer now d user_id t qid u q selected))"
  using assms
  by (auto simp: apply_answer_def Let_def split: option.splits sum.splits
      intro: weights_ok_record_attempt
      dest!: weights_ok_update_user [OF weights_ok_record_attempt, rotated]
      dest: weights_ok_update_topic_weight)

lemma weights_ok_set_difficulty:
  "weights_ok d \<Longrightarrow> set_difficulty d user_id lvl msg = Inr (ms, d') \<Longrightarrow> weights_ok d'"
  by (auto simp: set_difficulty_def split: sum.splits dest: weights_ok_update_user)

lemma weights_ok_adjust_difficulty:
  assumes "weights_ok d"
  shows "weights_ok (snd (adjust_difficulty d user_id))"
  using assms
  by (auto simp: adjust_difficulty_def split: option.splits sum.splits if_splits
      dest: weights_ok_set_difficulty)

lemma weights_ok_cb_answer:
  assumes "weights_ok d"
  shows "weights_ok (snd (cb_answer QDB now rnd pick d user_id parts))"
proof -
  have c: "apply_answer now d user_id t qid u q selected = (x, d1) \<Longrightarrow> weights_ok d1"
    for t qid u q selected x d1
    using weights_ok_apply_answer [OF assms, of now user_id t qid u q selected] by simp
  have e: "apply_answer now d user_id t qid u q selected = (x, d1) \<Longrightarrow>
           adjust_difficulty d1 user_id = (y, d2) \<Longrightarrow> weights_ok d2"
    for t qid u q selected x d1 y d2
    using weights_ok_adjust_difficulty [of d1 user_id] c [of t qid u q selected x d1] by simp
  show ?thesis
    using assms
    by (auto simp: cb_answer_def split: list.splits sum.splits option.splits prod.splits
        dest: c e)
qed

lemma weights_ok_cb_start_quiz:
  assumes "weights_ok d"
  shows "weights_ok (snd (cb_start_quiz QDB now rnd pick d user_id uname t))"
proof -
  let ?d1 = "ensure_user QDB now d user_id uname"
  have d1: "weights_ok ?d1" using assms by (rule weights_ok_ensure_user)
  have d2: "update_user ?d1 user_id f = Inr d2 \<Longrightarrow> weights_ok d2" for d2 f
    using d1 by (rule weights_ok_update_user)
  show ?thesis
    using d1
    by (auto simp: cb_start_quiz_def Let_def split: sum.splits option.splits dest: d2)
qed

lemma reachable_weights_ok:
  assumes "reachable QDB d"
  shows "weights_ok d"
  using assms
proof (induction rule: reachable.induct)
  case fresh
  show ?case by (simp add: weights_ok_def weight_of_def fresh_db_def)
next
  case (ensure d now user_id uname)
  then show ?case by (simp add: weights_ok_ensure_user)
next
  case (start_quiz d now rnd pick user_id uname t)
  then show ?case by (simp add: weights_ok_cb_start_quiz)
next
  case (answer d now rnd pick user_id parts)
  then show ?case by (simp add: weights_ok_cb_answer)
next
  case (adjust d now user_id t delta d')
  then show ?case by (auto intro: weights_ok_update_topic_weight)
qed

lemma apply_answer_known:
  assumes "users d = Some us" "us user_id = Some u" "topic_stats d = Some ts"
  shows "apply_answer now d user_id t qid (Some u) q selected =
     (Inr (if selected = q_answer q then Correct else Wrong (q_answer q)),
      d\<lparr>attempts := Some ((case attempts d of None \<Rightarrow> [] | Some l \<Rightarrow> l) @
                 [\<lparr>a_user_id = user_id, a_qid = qid,
                   a_correct = (if selected = q_answer q then 1 else 0), a_timestamp = now\<rparr>]),
        users := Some (us(user_id \<mapsto> streak_update (selected = q_answer q) u)),
        topic_stats := Some (ts((user_id, t) \<mapsto>
           (max 0.1 ((case ts (user_id, t) of Some row \<Rightarrow> fst row | None \<Rightarrow> 1.0) +
                     (if selected = q_answer q then - 0.3 else 0.5)), now)))\<rparr>)"
  using assms
  by (simp add: apply_answer_def record_attempt_def update_user_def update_topic_weight_def
      streak_update_def Let_def)

lemma adjust_difficulty_known:
  assumes "users d = Some us" "us user_id = Some u" "index_of levels (difficulty u) = Some idx"
  shows "\<exists>ms. adjust_difficulty d user_id =
           (Inr (ms, u), d\<lparr>users := Some (us(user_id \<mapsto> u\<lparr>difficulty := difficulty_after u idx\<rparr>))\<rparr>)"
proof -
  have same: "d\<lparr>users := Some (us(user_id \<mapsto> u))\<rparr> = d"
    using assms(1,2) by (simp add: map_upd_triv)
  show ?thesis
    using assms same
    by (simp add: adjust_difficulty_def get_user_def set_difficulty_def update_user_def
        difficulty_after_def)
qed

lemma submit_answer_processed:
  assumes "users d = Some us" "us user_id = Some u" "topic_stats d = Some ts"
    and "find_question QDB t qid = Inr (Some q)"
    and "index_of levels (difficulty u) = Some idx"
  shows "snd (submit_answer QDB now rnd pick d user_id t qid selected) =
     d\<lparr>attempts := Some ((case attempts d of None \<Rightarrow> [] | Some l \<Rightarrow> l) @
                 [\<lparr>a_user_id = user_id, a_qid = qid,
                   a_correct = (if selected = q_answer q then 1 else 0), a_timestamp = now\<rparr>]),
        users := Some (us(user_id \<mapsto>
           (streak_update (selected = q_answer q) u)
             \<lparr>difficulty := difficulty_after (streak_update (selected = q_answer q) u) idx\<rparr>)),
        topic_stats := Some (ts((user_id, t) \<mapsto>
           (max 0.1 ((case ts (user_id, t) of Some row \<Rightarrow> fst row | None \<Rightarrow> 1.0) +
                     (if selected = q_answer q then - 0.3 else 0.5)), now)))\<rparr>"
proof -
  let ?c = "selected = q_answer q"
  let ?u1 = "streak_update ?c u"
  let ?us1 = "us(user_id \<mapsto> ?u1)"
  obtain m d1 where a: "apply_answer now d user_id t qid (Some u) q selected = (Inr m, d1)"
    and d1: "d1 = d\<lparr>attempts := Some ((case attempts d of None \<Rightarrow> [] | Some l \<Rightarrow> l) @
                 [\<lparr>a_user_id = user_id, a_qid = qid,
                   a_correct = (if ?c then 1 else 0), a_timestamp = now\<rparr>]),
        users := Some ?us1,
        topic_stats := Some (ts((user_id, t) \<mapsto>
           (max 0.1 ((case ts (user_id, t) of Some row \<Rightarrow> fst row | None \<Rightarrow> 1.0) +
                     (if ?c then - 0.3 else 0.5)), now)))\<rparr>"
    using apply_answer_known [OF assms(1-3), of now t qid q selected] by blast
  have u1: "users d1 = Some ?us1" "?us1 user_id = Some ?u1"
    by (simp_all add: d1)
  have lvl: "index_of levels (difficulty ?u1) = Some idx"
    using assms(5) by (simp add: streak_update_def)
  obtain ms where b: "adjust_difficulty d1 user_id =
      (Inr (ms, ?u1), d1\<lparr>users := Some (?us1(user_id \<mapsto> ?u1\<lparr>difficulty := difficulty_after ?u1 idx\<rparr>))\<rparr>)"
    using adjust_difficulty_known [OF u1 lvl] by blast
  have "snd (submit_answer QDB now rnd pick d user_id t qid selected) =
          d1\<lparr>users := Some (?us1(user_id \<mapsto> ?u1\<lparr>difficulty := difficulty_after ?u1 idx\<rparr>))\<rparr>"
    using assms(1,2,4) a b
    by (simp add: submit_answer_def cb_answer_def get_user_def split: sum.splits)
  then show ?thesis by (simp add: d1)
qed

subsection \<open>The small bank\<close>

lemma new_learner_eq:
  "new_learner =
     \<lparr>users = Some [1 \<mapsto> \<lparr>username = ''U1'', difficulty = ''easy'', correct_streak = 0,
                          wrong_streak = 0, active_topic = ''Mixed''\<rparr>],
      topic_stats = Some [(1, ''A'') \<mapsto> (1, 100), (1, ''B'') \<mapsto> (1, 100)],
      attempts = None\<rparr>"
  by (simp add: new_learner_def ensure_user_def fresh_db_def bank_def Let_def)

lemma reachable_new_learner: "reachable bank new_learner"
  unfolding new_learner_def by (rule reachable.ensure [OF reachable.fresh])

subsection \<open>An answer that is processed\<close>

lemma submit_answer_effect:
  fixes now :: int and rnd :: real and pick :: nat and selected :: string
  assumes "user_of d user_id = Some u" "topic_stats d \<noteq> None"
    and "find_question QDB t qid = Inr (Some q)"
    and "index_of levels (difficulty u) = Some idx"
  defines "d' \<equiv> snd (submit_answer QDB now rnd pick d user_id t qid selected)"
  shows "user_of d' user_id =
           Some ((streak_update (selected = q_answer q) u)
             \<lparr>difficulty := difficulty_after (streak_update (selected = q_answer q) u) idx\<rparr>)"
    and "weight_of d' user_id t =
           Some (max 0.1 ((case weight_of d user_id t of Some w \<Rightarrow> w | None \<Rightarrow> 1.0) +
                          (if selected = q_answer q then - 0.3 else 0.5)))"
    and "topic_stats d' \<noteq> None"
    and "attempts d' = Some ((case attempts d of None \<Rightarrow> [] | Some l \<Rightarrow> l) @
                 [\<lparr>a_user_id = user_id, a_qid = qid,
                   a_correct = (if selected = q_answer q then 1 else 0), a_timestamp = now\<rparr>])"
proof -
  from assms(1) obtain us where us: "users d = Some us" "us user_id = Some u"
    by (auto simp: user_of_def split: option.splits)
  from assms(2) obtain ts where ts: "topic_stats d = Some ts" by blast
  note eq = submit_answer_processed [OF us ts assms(3,4), of now rnd pick selected]
  show "user_of d' user_id =
           Some ((streak_update (selected = q_answer q) u)
             \<lparr>difficulty := difficulty_after (streak_update (selected = q_answer q) u) idx\<rparr>)"
    unfolding d'_def eq by (simp add: user_of_def)
  show "weight_of d' user_id t =
           Some (max 0.1 ((case weight_of d user_id t of Some w \<Rightarrow> w | None \<Rightarrow> 1.0) +
                          (if selected = q_answer q then - 0.3 else 0.5)))"
    unfolding d'_def eq using ts by (simp add: weight_of_def split: option.splits)
  show "topic_stats d' \<noteq> None"
    unfolding d'_def eq by simp
  show "attempts d' = Some ((case attempts d of None \<Rightarrow> [] | Some l \<Rightarrow> l) @
                 [\<lparr>a_user_id = user_id, a_qid = qid,
                   a_correct = (if selected = q_answer q then 1 else 0), a_timestamp = now\<rparr>])"
    unfolding d'_def eq by simp
qed

lemma index_of_Some: "x \<in> set xs \<Longrightarrow> \<exists>i. index_of xs x = Some i"
  by (induction xs) auto

lemma index_of_None: "x \<notin> set xs \<Longrightarrow> index_of xs x = None"
  by (induction xs) auto

lemma difficulty_after_levels:
  "index_of levels (difficulty u) = Some idx \<Longrightarrow> difficulty_after u idx \<in> set levels"
proof -
  assume i: "index_of levels (difficulty u) = Some idx"
  then have idx: "idx < 3" and cur: "difficulty u = levels ! idx"
    by (simp_all add: index_of_levels)
  have nth: "j < 3 \<Longrightarrow> levels ! j \<in> set levels" for j
    by (rule nth_mem) (simp add: levels_def)
  show ?thesis
    using idx cur nth [of idx] nth [of "idx - 1"] nth [of "idx + 1"]
    by (simp add: difficulty_after_def)
qed

lemma progress_levels: "difficulty u \<in> set levels \<Longrightarrow> difficulty (progress c u) \<in> set levels"
proof -
  assume a: "difficulty u \<in> set levels"
  then obtain idx where "index_of levels (difficulty u) = Some idx"
    using index_of_Some by fastforce
  then have i: "index_of levels (difficulty (streak_update c u)) = Some idx"
    by (simp add: streak_update_def)
  show ?thesis
    using difficulty_after_levels [OF i] i by (simp add: progress_def Let_def)
qed

lemma submit_answer_answered:
  assumes "user_of d user_id = Some u" "topic_stats d \<noteq> None" "difficulty u \<in> set levels"
    and "answered QDB c (now, rnd, pick, t, qid, selected)"
  defines "d' \<equiv> snd (submit_answer QDB now rnd pick d user_id t qid selected)"
  shows "user_of d' user_id = Some (progress c u)"
    and "topic_stats d' \<noteq> None"
    and "weight_or_default d' user_id t = reweigh c (weight_or_default d user_id t)"
proof -
  from assms(4) obtain q where q: "find_question QDB t qid = Inr (Some q)"
    and c: "(selected = q_answer q) = c"
    by (auto simp: answered_def split: sum.splits option.splits)
  from assms(3) obtain idx where idx: "index_of levels (difficulty u) = Some idx"
    using index_of_Some by fastforce
  have i: "index_of levels (difficulty (streak_update c u)) = Some idx"
    using idx by (simp add: streak_update_def)
  note eff = submit_answer_effect [OF assms(1,2) q idx, of now rnd pick selected]
  show "user_of d' user_id = Some (progress c u)"
    using eff(1) c i by (simp add: d'_def progress_def Let_def)
  show "topic_stats d' \<noteq> None"
    using eff(3) by (simp add: d'_def)
  show "weight_or_default d' user_id t = reweigh c (weight_or_default d user_id t)"
    using eff(2) c by (auto simp: d'_def weight_or_default_def reweigh_def)
qed

lemma submit_all_run:
  assumes "user_of d user_id = Some u" "topic_stats d \<noteq> None" "difficulty u \<in> set levels"
    and "list_all2 (answered QDB) cs ss"
  shows "user_of (submit_all QDB user_id ss d) user_id = Some (fold progress cs u) \<and>
         ((\<forall>s \<in> set ss. on_topic t s) \<longrightarrow>
            weight_or_default (submit_all QDB user_id ss d) user_id t =
              fold reweigh cs (weight_or_default d user_id t))"
  using assms(4,1,2,3)
proof (induction cs ss arbitrary: d u rule: list_all2_induct)
  case Nil
  then show ?case by simp
next
  case (Cons c cs s ss)
  obtain now rnd pick t' qid selected where s: "s = (now, rnd, pick, t', qid, selected)"
    by (cases s)
  let ?d' = "snd (submit_answer QDB now rnd pick d user_id t' qid selected)"
  note st = submit_answer_answered [OF Cons.prems(1,2,3) Cons.hyps(1) [unfolded s]]
  have "difficulty (progress c u) \<in> set levels"
    using Cons.prems(3) by (rule progress_levels)
  from Cons.IH [OF st(1) st(2) this]
  have ih: "user_of (submit_all QDB user_id ss ?d') user_id = Some (fold progress cs (progress c u))"
    and ihw: "\<forall>s \<in> set ss. on_topic t s \<Longrightarrow>
         weight_or_default (submit_all QDB user_id ss ?d') user_id t =
           fold reweigh cs (weight_or_default ?d' user_id t)"
    by simp_all
  have w: "t' = t \<Longrightarrow> weight_or_default ?d' user_id t = reweigh c (weight_or_default d user_id t)"
    using st(3) by simp
  show ?case
  proof (intro conjI impI)
    show "user_of (submit_all QDB user_id (s # ss) d) user_id = Some (fold progress (c # cs) u)"
      using ih by (simp add: s)
  next
    assume on: "\<forall>x \<in> set (s # ss). on_topic t x"
    then have "t' = t" and "\<forall>x \<in> set ss. on_topic t x"
      by (simp_all add: s on_topic_def)
    then show "weight_or_default (submit_all QDB user_id (s # ss) d) user_id t =
                 fold reweigh (c # cs) (weight_or_default d user_id t)"
      using ihw w by (simp add: s)
  qed
qed

subsection \<open>The tables exist together\<close>

lemma schema_ok_update_user:
  "schema_ok d \<Longrightarrow> update_user d user_id f = Inr d' \<Longrightarrow> schema_ok d'"
  by (auto simp: schema_ok_def update_user_def split: option.splits)

lemma schema_ok_update_topic_weight:
  "update_topic_weight now d user_id t delta = Inr d' \<Longrightarrow> schema_ok d'"
  by (auto simp: schema_ok_def update_topic_weight_def Let_def split: option.splits)

lemma schema_ok_record_attempt:
  "schema_ok d \<Longrightarrow> schema_ok (record_attempt now d user_id qid c)"
  by (simp add: schema_ok_def record_attempt_def Let_def)

lemma schema_ok_ensure_user: "schema_ok (ensure_user QDB now d user_id uname)"
  by (simp add: schema_ok_def ensure_user_def Let_def split: option.splits)

lemma schema_ok_apply_answer:
  assumes "schema_ok d"
  shows "schema_ok (snd (apply_answer now d user_id t qid u q selected))"
  using assms
  by (auto simp: apply_answer_def Let_def split: option.splits sum.splits
      intro: schema_ok_record_attempt
      dest!: schema_ok_update_user [OF schema_ok_record_attempt, rotated]
      dest: schema_ok_update_topic_weight)

lemma schema_ok_set_difficulty:
  "schema_ok d \<Longrightarrow> set_difficulty d user_id lvl msg = Inr (ms, d') \<Longrightarrow> schema_ok d'"
  by (auto simp: set_difficulty_def split: sum.splits dest: schema_ok_update_user)

lemma schema_ok_adjust_difficulty:
  assumes "schema_ok d"
  shows "schema_ok (snd (adjust_difficulty d user_id))"
  using assms
  by (auto simp: adjust_difficulty_def split: option.splits sum.splits if_splits
      dest: schema_ok_set_difficulty)

lemma cb_answer_db_cases:
  assumes "P d"
    and "\<And>t qid u q selected. P (snd (apply_answer now d user_id t qid u q selected))"
    and "\<And>t qid u q selected.
           P (snd (adjust_difficulty (snd (apply_answer now d user_id t qid u q selected)) user_id))"
  shows "P (snd (cb_answer QDB now rnd pick d user_id parts))"
proof -
  have a: "apply_answer now d user_id t qid u q selected = (x, d1) \<Longrightarrow> P d1"
    for t qid u q selected x d1
    using assms(2) [of t qid u q selected] by simp
  have b: "apply_answer now d user_id t qid u q selected = (x, d1) \<Longrightarrow>
           adjust_difficulty d1 user_id = (y, d2) \<Longrightarrow> P d2"
    for t qid u q selected x d1 y d2
    using assms(3) [of t qid u q selected] by simp
  show ?thesis
    using assms(1)
    by (auto simp: cb_answer_def split: list.splits sum.splits option.splits prod.splits
        dest: a b)
qed

lemma schema_ok_cb_answer:
  assumes "schema_ok d"
  shows "schema_ok (snd (cb_answer QDB now rnd pick d user_id parts))"
  using assms
  by (rule_tac P = schema_ok in cb_answer_db_cases)
     (simp_all add: schema_ok_apply_answer schema_ok_adjust_difficulty)

lemma schema_ok_cb_start_quiz:
  "schema_ok (snd (cb_start_quiz QDB now rnd pick d user_id uname t))"
proof -
  let ?d1 = "ensure_user QDB now d user_id uname"
  have d1: "schema_ok ?d1" by (rule schema_ok_ensure_user)
  have d2: "update_user ?d1 user_id f = Inr d2 \<Longrightarrow> schema_ok d2" for d2 f
    using d1 by (rule schema_ok_update_user)
  show ?thesis
    using d1
    by (auto simp: cb_start_quiz_def Let_def split: sum.splits option.splits dest: d2)
qed

lemma reachable_schema_ok:
  assumes "reachable QDB d"
  shows "schema_ok d"
  using assms
proof (induction rule: reachable.induct)
  case fresh
  show ?case by (simp add: schema_ok_def fresh_db_def)
next
  case (ensure d now user_id uname)
  show ?case by (rule schema_ok_ensure_user)
next
  case (start_quiz d now rnd pick user_id uname t)
  show ?case by (rule schema_ok_cb_start_quiz)
next
  case (answer d now rnd pick user_id parts)
  then show ?case by (simp add: schema_ok_cb_answer)
next
  case (adjust d now user_id t delta d')
  then show ?case by (auto intro: schema_ok_update_topic_weight)
qed

lemma reachable_user_tables:
  assumes "reachable QDB d" "user_of d user_id = Some u"
  shows "topic_stats d \<noteq> None"
  using reachable_schema_ok [OF assms(1)] assms(2)
  by (auto simp: schema_ok_def user_of_def split: option.splits)

lemma reachable_submit_all:
  "reachable QDB d \<Longrightarrow> reachable QDB (submit_all QDB user_id ss d)"
proof (induction ss arbitrary: d)
  case Nil
  then show ?case by simp
next
  case (Cons s ss)
  obtain now rnd pick t qid selected where s: "s = (now, rnd, pick, t, qid, selected)"
    by (cases s)
  have "reachable QDB (snd (cb_answer QDB now rnd pick d user_id [''answer'', t, qid, selected]))"
    using Cons.prems by (rule reachable.answer)
  then show ?case using Cons.IH by (simp add: s submit_answer_def)
qed

lemma find_Q1: "find_question bank ''A'' ''Q1'' = Inr (Some Q1)"
  by (simp add: find_question_def bank_def questions_at_def Q1_def)

lemma answered_Q1:
  "answered bank True (now, rnd, pick, ''A'', ''Q1'', ''a'')"
  "answered bank False (now, rnd, pick, ''A'', ''Q1'', ''b'')"
  by (simp_all add: answered_def find_Q1) (simp_all add: Q1_def)

lemma user_of_new_learner:
  "user_of new_learner 1 = Some \<lparr>username = ''U1'', difficulty = ''easy'', correct_streak = 0,
                          wrong_streak = 0, active_topic = ''Mixed''\<rparr>"
  by (simp add: new_learner_eq user_of_def)

lemma weight_of_new_learner:
  "weight_of new_learner 1 ''A'' = Some 1" "weight_of new_learner 1 ''B'' = Some 1"
  "topic_stats new_learner \<noteq> None"
  by (simp_all add: new_learner_eq weight_of_def)

lemma fold_reweigh_example: "fold reweigh [True, True, True, True] 1 = 0.1"
  by (simp add: reweigh_def)

subsection \<open>The weight floor\<close>

text \<open>
  C3. For every learner and topic, the weight is at least \<open>0.1\<close> after any number of
  adjustments with any deltas: \<^verbatim>\<open>update_topic_weight\<close> on an existing table returns,
  and the weight it writes is at least \<open>0.1\<close>; and in every database the program can
  reach (by any handler calls, among them arbitrarily many correct answers, and any
  direct adjustments) every recorded weight is at least \<open>0.1\<close>.
\<close>

theorem topic_weight_floor:
  "(topic_stats d \<noteq> None \<longrightarrow>
      (\<exists>d' w. update_topic_weight now d user_id t delta = Inr d' \<and>
               weight_of d' user_id t = Some w \<and> 0.1 \<le> w)) \<and>
   (reachable QDB d \<longrightarrow> weight_of d user_id t = Some w' \<longrightarrow> 0.1 \<le> w')"
proof (intro conjI impI)
  assume "topic_stats d \<noteq> None"
  then obtain ts where ts: "topic_stats d = Some ts" by blast
  then obtain d' where d': "update_topic_weight now d user_id t delta = Inr d'"
    by (simp add: update_topic_weight_def Let_def)
  then have "weight_of d' user_id t =
      Some (max 0.1 ((case weight_of d user_id t of Some w \<Rightarrow> w | None \<Rightarrow> 1.0) + delta))"
    by (simp add: weight_of_update_topic_weight)
  moreover have "(0.1::real) \<le> max 0.1 ((case weight_of d user_id t of Some w \<Rightarrow> w | None \<Rightarrow> 1.0) + delta)"
    by (rule max.cobounded1)
  ultimately show "\<exists>d' w. update_topic_weight now d user_id t delta = Inr d' \<and>
               weight_of d' user_id t = Some w \<and> 0.1 \<le> w"
    using d' by blast
next
  assume "reachable QDB d" "weight_of d user_id t = Some w'"
  then show "0.1 \<le> w'"
    using reachable_weights_ok [of QDB d] unfolding weights_ok_def by blast
qed

lemma four_correct_weight: "weight_of four_correct 1 ''A'' = Some 0.1"
proof -
  let ?ss = "replicate 4 (200::int, 0::real, 0::nat, ''A'', ''Q1'', ''a'')"
  have l: "list_all2 (answered bank) [True, True, True, True] ?ss"
    by (simp add: numeral_eq_Suc answered_Q1)
  have "\<forall>s \<in> set ?ss. on_topic ''A'' s" by (simp add: on_topic_def)
  with submit_all_run [where t = "''A''", OF user_of_new_learner weight_of_new_learner(3) _ l]
  have "weight_or_default four_correct 1 ''A'' = fold reweigh [True, True, True, True] 1"
    by (simp add: four_correct_def levels_def weight_or_default_def weight_of_new_learner)
  then have "weight_or_default four_correct 1 ''A'' = 0.1"
    by (simp only: fold_reweigh_example)
  then show ?thesis
    by (auto simp: weight_or_default_def split: option.splits)
qed

lemma reachable_four_correct: "reachable bank four_correct"
  unfolding four_correct_def by (rule reachable_submit_all [OF reachable_new_learner])

theorem topic_weight_floor_witness:
  "reachable bank four_correct \<and> weight_of four_correct 1 ''A'' = Some 0.1 \<and>
   (0.1::real) \<le> 0.1 \<and> topic_stats four_correct \<noteq> None \<and>
   (\<exists>d' w. update_topic_weight 300 four_correct 1 ''A'' (- 0.3) = Inr d' \<and>
           weight_of d' 1 ''A'' = Some w \<and> 0.1 \<le> w)"
proof -
  have ts: "topic_stats four_correct \<noteq> None"
    using four_correct_weight by (auto simp: weight_of_def split: option.splits)
  show ?thesis
    using topic_weight_floor [of four_correct 300 1 "''A''" "- 0.3" bank "0.1"]
      reachable_four_correct four_correct_weight ts
    by simp
qed

text \<open>
  C10. \<^verbatim>\<open>update_topic_weight\<close> for a pair without a row does not fail: it writes the row
  with the weight \<open>max 0.1 (1.0 + delta)\<close>, which is what it does when the row is there
  with the weight \<open>1.0\<close>.
\<close>

theorem adjust_weight_missing_row:
  assumes "topic_stats d = Some ts" "ts (user_id, t) = None"
  shows "update_topic_weight now d user_id t delta =
           Inr (d\<lparr>topic_stats := Some (ts((user_id, t) \<mapsto> (max 0.1 (1.0 + delta), now)))\<rparr>) \<and>
         update_topic_weight now d user_id t delta =
           update_topic_weight now
             (d\<lparr>topic_stats := Some (ts((user_id, t) \<mapsto> (1.0, seen)))\<rparr>) user_id t delta"
  using assms by (simp add: update_topic_weight_def Let_def)

theorem adjust_weight_missing_row_witness:
  "topic_stats new_learner = Some [(1, ''A'') \<mapsto> (1, 100), (1, ''B'') \<mapsto> (1, 100)] \<and>
   [(1, ''A'') \<mapsto> (1::real, 100::int), (1, ''B'') \<mapsto> (1, 100)] (1, ''C'') = None \<and>
   weight_of new_learner 1 ''C'' = None \<and>
   (\<exists>d'. update_topic_weight 200 new_learner 1 ''C'' (- 0.3) = Inr d' \<and>
         weight_of d' 1 ''C'' = Some 0.7) \<and>
   (\<exists>d'. update_topic_weight 200 new_learner 1 ''C'' (- 5) = Inr d' \<and>
         weight_of d' 1 ''C'' = Some 0.1)"
proof -
  have h1: "topic_stats new_learner = Some [(1, ''A'') \<mapsto> (1, 100), (1, ''B'') \<mapsto> (1, 100)]"
    by (simp add: new_learner_eq)
  have h2: "[(1, ''A'') \<mapsto> (1::real, 100::int), (1, ''B'') \<mapsto> (1, 100)] (1, ''C'') = None"
    by simp
  show ?thesis
    using adjust_weight_missing_row [OF h1 h2, of 200 "- 0.3" 0]
      adjust_weight_missing_row [OF h1 h2, of 200 "- 5" 0] h1 h2
    by (simp add: weight_of_def)
qed

subsection \<open>Creating a learner\<close>

text \<open>
  C9. \<^verbatim>\<open>ensure_user\<close> creates a learner that has no row with the difficulty
  \<^verbatim>\<open>easy\<close>, both streaks 0, the active topic \<^verbatim>\<open>Mixed\<close> and the weight \<open>1.0\<close> for
  every topic of the bank, and leaves the other learners as they are; for a learner
  that has a row, every row, every weight and the attempts stay as they are; and a
  second call after a first one changes nothing at all.
\<close>

theorem ensure_user_create_if_absent:
  "(user_of d user_id = None \<longrightarrow>
      user_of (ensure_user QDB now d user_id uname) user_id =
        Some \<lparr>username = uname, difficulty = ''easy'', correct_streak = 0,
              wrong_streak = 0, active_topic = ''Mixed''\<rparr> \<and>
      (\<forall>t \<in> set (map fst QDB). weight_of (ensure_user QDB now d user_id uname) user_id t = Some 1.0) \<and>
      (\<forall>other. other \<noteq> user_id \<longrightarrow>
         user_of (ensure_user QDB now d user_id uname) other = user_of d other \<and>
         weight_of (ensure_user QDB now d user_id uname) other = weight_of d other)) \<and>
   (user_of d user_id \<noteq> None \<longrightarrow>
      user_of (ensure_user QDB now d user_id uname) = user_of d \<and>
      weight_of (ensure_user QDB now d user_id uname) = weight_of d \<and>
      attempts (ensure_user QDB now d user_id uname) = attempts d) \<and>
   ensure_user QDB now' (ensure_user QDB now d user_id uname) user_id uname' =
     ensure_user QDB now d user_id uname"
proof (intro conjI impI allI ballI)
  assume "user_of d user_id = None"
  then show "user_of (ensure_user QDB now d user_id uname) user_id =
        Some \<lparr>username = uname, difficulty = ''easy'', correct_streak = 0,
              wrong_streak = 0, active_topic = ''Mixed''\<rparr>"
    by (simp add: user_of_ensure_user)
next
  fix t assume "user_of d user_id = None" "t \<in> set (map fst QDB)"
  then show "weight_of (ensure_user QDB now d user_id uname) user_id t = Some 1.0"
    by (simp add: weight_of_ensure_user)
next
  fix other assume "other \<noteq> user_id"
  then show "user_of (ensure_user QDB now d user_id uname) other = user_of d other"
    by (simp add: user_of_ensure_user split: option.splits)
next
  fix other assume "other \<noteq> user_id"
  then show "weight_of (ensure_user QDB now d user_id uname) other = weight_of d other"
    by (intro ext) (simp add: weight_of_ensure_user)
next
  assume "user_of d user_id \<noteq> None"
  then show "user_of (ensure_user QDB now d user_id uname) = user_of d"
    by (auto simp: user_of_ensure_user)
next
  assume "user_of d user_id \<noteq> None"
  then show "weight_of (ensure_user QDB now d user_id uname) = weight_of d"
    by (intro ext) (auto simp: weight_of_ensure_user)
next
  show "attempts (ensure_user QDB now d user_id uname) = attempts d"
    by (simp add: ensure_user_def Let_def split: option.splits)
next
  show "ensure_user QDB now' (ensure_user QDB now d user_id uname) user_id uname' =
     ensure_user QDB now d user_id uname"
    by (simp add: ensure_user_def Let_def split: option.splits)
qed

theorem ensure_user_create_if_absent_witness:
  "user_of fresh_db 1 = None \<and>
   user_of new_learner 1 =
     Some \<lparr>username = ''U1'', difficulty = ''easy'', correct_streak = 0,
           wrong_streak = 0, active_topic = ''Mixed''\<rparr> \<and>
   weight_of new_learner 1 ''A'' = Some 1 \<and> weight_of new_learner 1 ''B'' = Some 1 \<and>
   user_of new_learner 2 = user_of fresh_db 2 \<and>
   user_of four_correct 1 \<noteq> None \<and>
   user_of (ensure_user bank 300 four_correct 1 ''again'') = user_of four_correct \<and>
   weight_of (ensure_user bank 300 four_correct 1 ''again'') = weight_of four_correct \<and>
   weight_of (ensure_user bank 300 four_correct 1 ''again'') 1 ''A'' = Some 0.1 \<and>
   ensure_user bank 300 new_learner 1 ''again'' = new_learner"
proof -
  have h1: "user_of fresh_db 1 = None" by (simp add: user_of_def fresh_db_def)
  have l: "list_all2 (answered bank) [True, True, True, True]
             (replicate 4 (200::int, 0::real, 0::nat, ''A'', ''Q1'', ''a''))"
    by (simp add: numeral_eq_Suc answered_Q1)
  have h2: "user_of four_correct 1 \<noteq> None"
    using submit_all_run [where t = "''A''", OF user_of_new_learner weight_of_new_learner(3) _ l]
    by (simp add: four_correct_def levels_def)
  note a = ensure_user_create_if_absent [of fresh_db 1 bank 100 "''U1''" 300 "''again''"]
  note b = ensure_user_create_if_absent [of four_correct 1 bank 300 "''again''" 300 "''again''"]
  from a h1 have a1: "user_of new_learner 1 =
     Some \<lparr>username = ''U1'', difficulty = ''easy'', correct_streak = 0,
           wrong_streak = 0, active_topic = ''Mixed''\<rparr>"
    and a2: "\<forall>t \<in> set (map fst bank). weight_of new_learner 1 t = Some 1.0"
    and a3: "\<forall>other. other \<noteq> 1 \<longrightarrow> user_of new_learner other = user_of fresh_db other"
    and a4: "ensure_user bank 300 new_learner 1 ''again'' = new_learner"
    by (simp_all add: new_learner_def)
  from b h2 have b1: "user_of (ensure_user bank 300 four_correct 1 ''again'') = user_of four_correct"
    and b2: "weight_of (ensure_user bank 300 four_correct 1 ''again'') = weight_of four_correct"
    by simp_all
  from a2 have "weight_of new_learner 1 ''A'' = Some 1" "weight_of new_learner 1 ''B'' = Some 1"
    by (simp_all add: bank_def)
  moreover from a3 have "user_of new_learner 2 = user_of fresh_db 2" by simp
  ultimately show ?thesis
    using h1 h2 a1 a4 b1 b2 four_correct_weight by simp
qed

lemma streaks_row_invariant:
  "row_invariant (\<lambda>r. correct_streak r = 0 \<or> wrong_streak r = 0)"
  by (simp add: row_invariant_def)

lemma levels_row_invariant: "row_invariant (\<lambda>r. difficulty r \<in> set levels)"
  by (auto simp: row_invariant_def levels_def less_Suc_eq numeral_3_eq_3)

lemma reachable_difficulty:
  assumes "reachable QDB d" "user_of d user_id = Some u"
  shows "difficulty u \<in> set levels"
  using reachable_all_users [OF assms(1) levels_row_invariant] assms(2)
  by (simp add: all_users_def)

lemma progress_streaks:
  "correct_streak (progress c u) = (if c then correct_streak u + 1 else 0)"
  "wrong_streak (progress c u) = (if c then 0 else wrong_streak u + 1)"
  by (simp_all add: progress_def streak_update_def Let_def split: option.splits)

lemma reachable_submit_answer:
  fixes now :: int and rnd :: real and pick :: nat and selected :: string
  assumes "reachable QDB d" "user_of d user_id = Some u"
    and "find_question QDB t qid = Inr (Some q)"
  defines "d' \<equiv> snd (submit_answer QDB now rnd pick d user_id t qid selected)"
  shows "user_of d' user_id = Some (progress (selected = q_answer q) u)"
    and "weight_or_default d' user_id t = reweigh (selected = q_answer q) (weight_or_default d user_id t)"
    and "weight_of d' user_id t \<noteq> None"
proof -
  have ts: "topic_stats d \<noteq> None" using assms(1,2) by (rule reachable_user_tables)
  have lv: "difficulty u \<in> set levels" using assms(1,2) by (rule reachable_difficulty)
  have an: "answered QDB (selected = q_answer q) (now, rnd, pick, t, qid, selected)"
    using assms(3) by (simp add: answered_def)
  note st = submit_answer_answered [OF assms(2) ts lv an]
  show "user_of d' user_id = Some (progress (selected = q_answer q) u)"
    using st(1) by (simp add: d'_def)
  show "weight_or_default d' user_id t = reweigh (selected = q_answer q) (weight_or_default d user_id t)"
    using st(3) by (simp add: d'_def)
  from lv obtain idx where idx: "index_of levels (difficulty u) = Some idx"
    using index_of_Some by fastforce
  show "weight_of d' user_id t \<noteq> None"
    using submit_answer_effect(2) [OF assms(2) ts assms(3) idx, of now rnd pick selected]
    by (simp add: d'_def)
qed

lemma user_of_four_correct:
  "user_of four_correct 1 =
     Some \<lparr>username = ''U1'', difficulty = ''hard'', correct_streak = 4,
           wrong_streak = 0, active_topic = ''Mixed''\<rparr>"
proof -
  have l: "list_all2 (answered bank) [True, True, True, True]
             (replicate 4 (200::int, 0::real, 0::nat, ''A'', ''Q1'', ''a''))"
    by (simp add: numeral_eq_Suc answered_Q1)
  have "user_of four_correct 1 =
          Some (fold progress [True, True, True, True]
                 \<lparr>username = ''U1'', difficulty = ''easy'', correct_streak = 0,
                  wrong_streak = 0, active_topic = ''Mixed''\<rparr>)"
    using submit_all_run [where t = "''A''", OF user_of_new_learner weight_of_new_learner(3) _ l]
    by (simp add: four_correct_def levels_def)
  then show ?thesis
    by (simp add: progress_def streak_update_def difficulty_after_def levels_def)
qed

subsection \<open>Streaks\<close>

text \<open>
  C2. In every database the program can reach, no learner has both streaks nonzero
  (so a positive correct streak means a wrong streak of 0, and the other way round),
  and the database after one more \<^verbatim>\<open>submitAnswer\<close> is reachable again. When the
  learner has a row and the question is found, a correct answer adds 1 to the correct
  streak and sets the wrong streak to 0, and a wrong answer sets the correct streak to
  0 and adds 1 to the wrong streak.
\<close>

theorem streaks_never_both_nonzero:
  assumes "reachable QDB d"
  shows "(user_of d learner = Some r \<longrightarrow>
            (correct_streak r = 0 \<or> wrong_streak r = 0) \<and>
            (0 < correct_streak r \<longrightarrow> wrong_streak r = 0) \<and>
            (0 < wrong_streak r \<longrightarrow> correct_streak r = 0)) \<and>
         reachable QDB (snd (submit_answer QDB now rnd pick d user_id t qid selected)) \<and>
         (user_of d user_id = Some u \<and> find_question QDB t qid = Inr (Some q) \<longrightarrow>
            (\<exists>u'. user_of (snd (submit_answer QDB now rnd pick d user_id t qid selected)) user_id = Some u' \<and>
               (selected = q_answer q \<longrightarrow>
                  correct_streak u' = correct_streak u + 1 \<and> wrong_streak u' = 0) \<and>
               (selected \<noteq> q_answer q \<longrightarrow>
                  correct_streak u' = 0 \<and> wrong_streak u' = wrong_streak u + 1)))"
proof (intro conjI impI)
  assume "user_of d learner = Some r"
  then have inv: "correct_streak r = 0 \<or> wrong_streak r = 0"
    using reachable_all_users [OF assms streaks_row_invariant] by (simp add: all_users_def)
  then show "correct_streak r = 0 \<or> wrong_streak r = 0" .
  from inv show "wrong_streak r = 0" if "0 < correct_streak r" using that by auto
  from inv show "correct_streak r = 0" if "0 < wrong_streak r" using that by auto
next
  show "reachable QDB (snd (submit_answer QDB now rnd pick d user_id t qid selected))"
    unfolding submit_answer_def using assms by (rule reachable.answer)
next
  assume a: "user_of d user_id = Some u \<and> find_question QDB t qid = Inr (Some q)"
  then have "user_of (snd (submit_answer QDB now rnd pick d user_id t qid selected)) user_id =
               Some (progress (selected = q_answer q) u)"
    using reachable_submit_answer(1) [OF assms, of user_id u t qid q now rnd pick selected] by simp
  then show "\<exists>u'. user_of (snd (submit_answer QDB now rnd pick d user_id t qid selected)) user_id = Some u' \<and>
               (selected = q_answer q \<longrightarrow>
                  correct_streak u' = correct_streak u + 1 \<and> wrong_streak u' = 0) \<and>
               (selected \<noteq> q_answer q \<longrightarrow>
                  correct_streak u' = 0 \<and> wrong_streak u' = wrong_streak u + 1)"
    by (simp add: progress_streaks)
qed

theorem streaks_never_both_nonzero_witness:
  "reachable bank four_correct \<and>
   user_of four_correct 1 =
     Some \<lparr>username = ''U1'', difficulty = ''hard'', correct_streak = 4,
           wrong_streak = 0, active_topic = ''Mixed''\<rparr> \<and>
   find_question bank ''A'' ''Q1'' = Inr (Some Q1) \<and>
   reachable bank (snd (submit_answer bank 300 0 0 four_correct 1 ''A'' ''Q1'' ''b'')) \<and>
   (\<exists>u'. user_of (snd (submit_answer bank 300 0 0 four_correct 1 ''A'' ''Q1'' ''b'')) 1 = Some u' \<and>
         correct_streak u' = 0 \<and> wrong_streak u' = 1) \<and>
   (\<exists>u'. user_of (snd (submit_answer bank 300 0 0 four_correct 1 ''A'' ''Q1'' ''a'')) 1 = Some u' \<and>
         correct_streak u' = 5 \<and> wrong_streak u' = 0)"
proof -
  let ?u = "\<lparr>username = ''U1'', difficulty = ''hard'', correct_streak = 4,
           wrong_streak = 0, active_topic = ''Mixed''\<rparr>"
  note w = streaks_never_both_nonzero [OF reachable_four_correct,
      of 1 ?u 300 0 0 1 "''A''" "''Q1''" "''b''" ?u Q1]
  note c = streaks_never_both_nonzero [OF reachable_four_correct,
      of 1 ?u 300 0 0 1 "''A''" "''Q1''" "''a''" ?u Q1]
  have ans: "q_answer Q1 = ''a''" by (simp add: Q1_def)
  from w user_of_four_correct find_Q1 ans
  have w1: "reachable bank (snd (submit_answer bank 300 0 0 four_correct 1 ''A'' ''Q1'' ''b''))"
    and w2: "\<exists>u'. user_of (snd (submit_answer bank 300 0 0 four_correct 1 ''A'' ''Q1'' ''b'')) 1 = Some u' \<and>
         correct_streak u' = 0 \<and> wrong_streak u' = 1"
    by simp_all
  from c user_of_four_correct find_Q1 ans
  have c2: "\<exists>u'. user_of (snd (submit_answer bank 300 0 0 four_correct 1 ''A'' ''Q1'' ''a'')) 1 = Some u' \<and>
         correct_streak u' = 5 \<and> wrong_streak u' = 0"
    by simp
  show ?thesis
    using reachable_four_correct user_of_four_correct find_Q1 w1 w2 c2 by blast
qed

lemma submit_answer_other_weights:
  fixes now :: int and rnd :: real and pick :: nat and selected :: string
  assumes "reachable QDB d" "user_of d user_id = Some u"
    and "find_question QDB t qid = Inr (Some q)"
    and "other \<noteq> user_id \<or> t' \<noteq> t"
  shows "weight_of (snd (submit_answer QDB now rnd pick d user_id t qid selected)) other t' =
           weight_of d other t'"
proof -
  from assms(2) obtain us where us: "users d = Some us" "us user_id = Some u"
    by (auto simp: user_of_def split: option.splits)
  have "topic_stats d \<noteq> None" using assms(1,2) by (rule reachable_user_tables)
  then obtain ts where ts: "topic_stats d = Some ts" by blast
  have "difficulty u \<in> set levels" using assms(1,2) by (rule reachable_difficulty)
  then obtain idx where idx: "index_of levels (difficulty u) = Some idx"
    using index_of_Some by fastforce
  show ?thesis
    unfolding submit_answer_processed [OF us ts assms(3) idx]
    using assms(4) ts by (auto simp: weight_of_def)
qed

subsection \<open>The weight after an answer\<close>

text \<open>
  C4. When the learner has a row and the question is found, a correct answer changes
  the weight \<open>w\<close> of the answered topic to \<open>max 0.1 (w - 0.3)\<close> and a wrong answer to
  \<open>max 0.1 (w + 0.5)\<close>, and no other weight changes; from the weight \<open>1.0\<close> a correct
  answer gives \<open>0.7\<close>, and the correct streak goes from 0 to 1.
\<close>

theorem answer_adjusts_weight:
  assumes "reachable QDB d" "user_of d user_id = Some u"
    and "find_question QDB t qid = Inr (Some q)"
    and "weight_of d user_id t = Some w"
    and "d' = snd (submit_answer QDB now rnd pick d user_id t qid selected)"
  shows "(selected = q_answer q \<longrightarrow> weight_of d' user_id t = Some (max 0.1 (w - 0.3))) \<and>
         (selected \<noteq> q_answer q \<longrightarrow> weight_of d' user_id t = Some (max 0.1 (w + 0.5))) \<and>
         (other \<noteq> user_id \<or> t' \<noteq> t \<longrightarrow> weight_of d' other t' = weight_of d other t') \<and>
         (selected = q_answer q \<and> w = 1.0 \<longrightarrow> weight_of d' user_id t = Some 0.7) \<and>
         (selected = q_answer q \<and> correct_streak u = 0 \<longrightarrow>
            map_option correct_streak (user_of d' user_id) = Some 1)"
proof -
  note st = reachable_submit_answer [OF assms(1,2,3), of now rnd pick selected, folded assms(5)]
  from st(2,3) assms(4)
  have w': "weight_of d' user_id t = Some (reweigh (selected = q_answer q) w)"
    by (auto simp: weight_or_default_def split: option.splits)
  have other: "other \<noteq> user_id \<or> t' \<noteq> t \<Longrightarrow> weight_of d' other t' = weight_of d other t'"
    unfolding assms(5) using assms(1,2,3) by (rule submit_answer_other_weights)
  have "max (0.1::real) (1.0 - 0.3) = 0.7" by simp
  with w' st(1) other show ?thesis
    by (auto simp: reweigh_def progress_streaks)
qed

theorem answer_adjusts_weight_witness:
  "reachable bank new_learner \<and>
   user_of new_learner 1 =
     Some \<lparr>username = ''U1'', difficulty = ''easy'', correct_streak = 0,
           wrong_streak = 0, active_topic = ''Mixed''\<rparr> \<and>
   find_question bank ''A'' ''Q1'' = Inr (Some Q1) \<and>
   weight_of new_learner 1 ''A'' = Some 1 \<and>
   weight_of (snd (submit_answer bank 200 0 0 new_learner 1 ''A'' ''Q1'' ''a'')) 1 ''A'' = Some 0.7 \<and>
   map_option correct_streak
     (user_of (snd (submit_answer bank 200 0 0 new_learner 1 ''A'' ''Q1'' ''a'')) 1) = Some 1 \<and>
   weight_of (snd (submit_answer bank 200 0 0 new_learner 1 ''A'' ''Q1'' ''a'')) 1 ''B'' = Some 1 \<and>
   weight_of (snd (submit_answer bank 200 0 0 new_learner 1 ''A'' ''Q1'' ''b'')) 1 ''A'' = Some 1.5"
proof -
  have ans: "q_answer Q1 = ''a''" by (simp add: Q1_def)
  note c = answer_adjusts_weight [where now = 200 and rnd = 0 and pick = 0 and selected = "''a''"
      and other = 1 and t' = "''B''", OF reachable_new_learner user_of_new_learner find_Q1
      weight_of_new_learner(1) refl]
  note w = answer_adjusts_weight [where now = 200 and rnd = 0 and pick = 0 and selected = "''b''"
      and other = 1 and t' = "''B''", OF reachable_new_learner user_of_new_learner find_Q1
      weight_of_new_learner(1) refl]
  from c ans weight_of_new_learner(2)
  have c1: "weight_of (snd (submit_answer bank 200 0 0 new_learner 1 ''A'' ''Q1'' ''a'')) 1 ''A'' = Some 0.7"
    and c2: "map_option correct_streak
     (user_of (snd (submit_answer bank 200 0 0 new_learner 1 ''A'' ''Q1'' ''a'')) 1) = Some 1"
    and c3: "weight_of (snd (submit_answer bank 200 0 0 new_learner 1 ''A'' ''Q1'' ''a'')) 1 ''B'' = Some 1"
    by simp_all
  from w ans
  have w1: "weight_of (snd (submit_answer bank 200 0 0 new_learner 1 ''A'' ''Q1'' ''b'')) 1 ''A'' = Some 1.5"
    by simp
  show ?thesis
    using reachable_new_learner user_of_new_learner find_Q1 weight_of_new_learner(1) c1 c2 c3 w1
    by blast
qed

subsection \<open>Calls that are not processed\<close>

lemma submit_answer_unknown_user:
  assumes "user_of d user_id = None"
  shows "user_of (snd (submit_answer QDB now rnd pick d user_id t qid selected)) = user_of d"
    and "weight_of (snd (submit_answer QDB now rnd pick d user_id t qid selected)) = weight_of d"
  using assms
  by (auto simp: submit_answer_def cb_answer_def get_user_def user_of_def apply_answer_def Let_def
      split: option.splits sum.splits)

lemma submit_answer_not_found:
  assumes "find_question QDB t qid = Inr None"
  shows "submit_answer QDB now rnd pick d user_id t qid selected =
           (case get_user d user_id of Inl e \<Rightarrow> (Inl e, d) | Inr u \<Rightarrow> (Inr [QuestionNotFound], d))"
  using assms
  by (simp add: submit_answer_def cb_answer_def split: sum.splits)

lemma submit_answer_unknown_topic:
  assumes "map_of QDB t = None"
  shows "submit_answer QDB now rnd pick d user_id t qid selected =
           (case get_user d user_id of Inl e \<Rightarrow> (Inl e, d) | Inr u \<Rightarrow> (Inl KeyError, d))"
  using assms
  by (simp add: submit_answer_def cb_answer_def find_question_def split: sum.splits)

lemma find_question_cases:
  "find_question QDB t qid = Inl KeyError \<and> map_of QDB t = None \<or>
   find_question QDB t qid = Inr None \<or> (\<exists>q. find_question QDB t qid = Inr (Some q))"
  by (cases "map_of QDB t") (auto simp: find_question_def)

lemma submit_answer_other_users:
  fixes now :: int and rnd :: real and pick :: nat and selected :: string
  assumes "reachable QDB d" "user_of d user_id = Some u"
    and "find_question QDB t qid = Inr (Some q)" and "other \<noteq> user_id"
  shows "user_of (snd (submit_answer QDB now rnd pick d user_id t qid selected)) other =
           user_of d other"
proof -
  from assms(2) obtain us where us: "users d = Some us" "us user_id = Some u"
    by (auto simp: user_of_def split: option.splits)
  have "topic_stats d \<noteq> None" using assms(1,2) by (rule reachable_user_tables)
  then obtain ts where ts: "topic_stats d = Some ts" by blast
  have "difficulty u \<in> set levels" using assms(1,2) by (rule reachable_difficulty)
  then obtain idx where idx: "index_of levels (difficulty u) = Some idx"
    using index_of_Some by fastforce
  show ?thesis
    unfolding submit_answer_processed [OF us ts assms(3) idx]
    using assms(4) us by (auto simp: user_of_def)
qed

lemma submit_answer_rows:
  fixes now :: int and rnd :: real and pick :: nat and user_id :: int
    and t :: string and qid :: string and selected :: string
  assumes "reachable QDB d" "user_of d learner = Some r"
  defines "d' \<equiv> snd (submit_answer QDB now rnd pick d user_id t qid selected)"
  shows "user_of d' learner = Some r \<or>
         (learner = user_id \<and>
          (\<exists>q. find_question QDB t qid = Inr (Some q) \<and>
                user_of d' learner = Some (progress (selected = q_answer q) r)))"
proof (cases "user_of d user_id")
  case None
  then show ?thesis
    using assms(2) by (simp add: d'_def submit_answer_unknown_user)
next
  case (Some u)
  from find_question_cases [of QDB t qid] show ?thesis
  proof (elim disjE conjE exE)
    assume "map_of QDB t = None"
    then show ?thesis
      using assms(2) by (simp add: d'_def submit_answer_unknown_topic split: sum.splits)
  next
    assume "find_question QDB t qid = Inr None"
    then show ?thesis
      using assms(2) by (simp add: d'_def submit_answer_not_found split: sum.splits)
  next
    fix q assume q: "find_question QDB t qid = Inr (Some q)"
    show ?thesis
    proof (cases "learner = user_id")
      case True
      then show ?thesis
        using reachable_submit_answer(1) [OF assms(1) Some q, of now rnd pick selected] q Some assms(2)
        by (simp add: d'_def)
    next
      case False
      then show ?thesis
        using submit_answer_other_users [OF assms(1) Some q, of learner now rnd pick selected] assms(2)
        by (simp add: d'_def)
    qed
  qed
qed

lemma index_of_levels_nth: "j < 3 \<Longrightarrow> index_of levels (levels ! j) = Some j"
  by (auto simp: levels_def less_Suc_eq numeral_3_eq_3)

lemma progress_difficulty:
  fixes c :: bool
  assumes "index_of levels (difficulty u) = Some idx"
  defines "u' \<equiv> progress c u"
  shows "3 \<le> correct_streak u' \<and> idx < 2 \<Longrightarrow> difficulty u' = levels ! (idx + 1)"
    and "2 \<le> wrong_streak u' \<and> 0 < idx \<Longrightarrow> difficulty u' = levels ! (idx - 1)"
    and "\<not> (3 \<le> correct_streak u' \<and> idx < 2) \<Longrightarrow> \<not> (2 \<le> wrong_streak u' \<and> 0 < idx) \<Longrightarrow>
         difficulty u' = difficulty u"
proof -
  have i: "index_of levels (difficulty (streak_update c u)) = Some idx"
    using assms(1) by (simp add: streak_update_def)
  have d: "difficulty u' = difficulty_after (streak_update c u) idx"
    and s: "correct_streak u' = correct_streak (streak_update c u)"
           "wrong_streak u' = wrong_streak (streak_update c u)"
    using i by (simp_all add: u'_def progress_def Let_def)
  have z: "correct_streak (streak_update c u) = 0 \<or> wrong_streak (streak_update c u) = 0"
    by (simp add: streak_update_def)
  show "3 \<le> correct_streak u' \<and> idx < 2 \<Longrightarrow> difficulty u' = levels ! (idx + 1)"
    using z by (auto simp: d s difficulty_after_def)
  show "2 \<le> wrong_streak u' \<and> 0 < idx \<Longrightarrow> difficulty u' = levels ! (idx - 1)"
    by (auto simp: d s difficulty_after_def)
  show "\<not> (3 \<le> correct_streak u' \<and> idx < 2) \<Longrightarrow> \<not> (2 \<le> wrong_streak u' \<and> 0 < idx) \<Longrightarrow>
         difficulty u' = difficulty u"
    by (auto simp: d s difficulty_after_def streak_update_def)
qed

lemma progress_one_step:
  assumes "index_of levels (difficulty u) = Some idx"
  shows "\<exists>idx'. index_of levels (difficulty (progress c u)) = Some idx' \<and>
                idx' \<le> idx + 1 \<and> idx \<le> idx' + 1"
proof -
  have idx: "idx < 3" and cur: "levels ! idx = difficulty u"
    using assms by (simp_all add: index_of_levels)
  note p = progress_difficulty [OF assms, of c]
  consider (up) "3 \<le> correct_streak (progress c u) \<and> idx < 2"
    | (down) "2 \<le> wrong_streak (progress c u) \<and> 0 < idx"
    | (same) "\<not> (3 \<le> correct_streak (progress c u) \<and> idx < 2)"
             "\<not> (2 \<le> wrong_streak (progress c u) \<and> 0 < idx)"
    by blast
  then show ?thesis
  proof cases
    case up
    then have "index_of levels (difficulty (progress c u)) = Some (idx + 1)"
      using p(1) index_of_levels_nth [of "idx + 1"] by simp
    then show ?thesis by simp
  next
    case down
    then have "index_of levels (difficulty (progress c u)) = Some (idx - 1)"
      using p(2) index_of_levels_nth [of "idx - 1"] idx by simp
    then show ?thesis using down by auto
  next
    case same
    then have "index_of levels (difficulty (progress c u)) = Some idx"
      using p(3) assms by simp
    then show ?thesis by simp
  qed
qed

lemma three_correct_from_easy:
  assumes "difficulty u = ''easy''" "correct_streak u = 0"
  shows "difficulty (fold progress [True] u) = ''easy''"
    and "difficulty (fold progress [True, True] u) = ''easy''"
    and "difficulty (fold progress [True, True, True] u) = ''medium''"
  using assms
  by (simp_all add: progress_def streak_update_def difficulty_after_def levels_def)

lemma two_wrong_from_hard:
  assumes "difficulty u = ''hard''" "wrong_streak u = 0"
  shows "difficulty (fold progress [False] u) = ''hard''"
    and "difficulty (fold progress [False, False] u) = ''medium''"
  using assms
  by (simp_all add: progress_def streak_update_def difficulty_after_def levels_def)

lemma submit_all_rows:
  assumes "reachable QDB d" "user_of d user_id = Some u" "list_all2 (answered QDB) cs ss"
  shows "user_of (submit_all QDB user_id ss d) user_id = Some (fold progress cs u)"
proof -
  have ts: "topic_stats d \<noteq> None" using assms(1,2) by (rule reachable_user_tables)
  have lv: "difficulty u \<in> set levels" using assms(1,2) by (rule reachable_difficulty)
  from submit_all_run [OF assms(2) ts lv assms(3)] show ?thesis by simp
qed

subsection \<open>The difficulty\<close>

text \<open>
  C1. In every database the program can reach, the difficulty of every learner is one
  of \<^verbatim>\<open>easy\<close>, \<^verbatim>\<open>medium\<close>, \<^verbatim>\<open>hard\<close>, and one \<^verbatim>\<open>submitAnswer\<close> of anybody moves the
  position of a learner's difficulty in that list by at most one. When the learner has
  a row and the question is found, then with the streaks as updated by this answer:
  with a correct streak of at least 3 below \<^verbatim>\<open>hard\<close> the difficulty is the next level,
  with a wrong streak of at least 2 above \<^verbatim>\<open>easy\<close> it is the level before, otherwise
  it is unchanged. From \<^verbatim>\<open>easy\<close> and a correct streak of 0, three correct answers in
  a row give \<^verbatim>\<open>easy\<close>, \<^verbatim>\<open>easy\<close>, \<^verbatim>\<open>medium\<close>; from \<^verbatim>\<open>hard\<close> and a wrong streak of
  0, two wrong answers in a row give \<^verbatim>\<open>hard\<close>, \<^verbatim>\<open>medium\<close>.
\<close>

theorem difficulty_moves_one_level:
  assumes "reachable QDB d"
  shows
   "(user_of d learner = Some r \<longrightarrow> difficulty r \<in> set levels) \<and>
    (user_of d learner = Some r \<and> index_of levels (difficulty r) = Some i \<longrightarrow>
       (\<exists>r' i'. user_of (snd (submit_answer QDB now rnd pick d user_id t qid selected)) learner = Some r' \<and>
                index_of levels (difficulty r') = Some i' \<and> i' \<le> i + 1 \<and> i \<le> i' + 1)) \<and>
    (user_of d user_id = Some u \<and> find_question QDB t qid = Inr (Some q) \<and>
     index_of levels (difficulty u) = Some idx \<longrightarrow>
       (\<exists>u'. user_of (snd (submit_answer QDB now rnd pick d user_id t qid selected)) user_id = Some u' \<and>
          (3 \<le> correct_streak u' \<and> idx < 2 \<longrightarrow> difficulty u' = levels ! (idx + 1)) \<and>
          (2 \<le> wrong_streak u' \<and> 0 < idx \<longrightarrow> difficulty u' = levels ! (idx - 1)) \<and>
          (\<not> (3 \<le> correct_streak u' \<and> idx < 2) \<and> \<not> (2 \<le> wrong_streak u' \<and> 0 < idx) \<longrightarrow>
             difficulty u' = difficulty u))) \<and>
    (user_of d user_id = Some u \<and> difficulty u = ''easy'' \<and> correct_streak u = 0 \<and>
     list_all2 (answered QDB) [True, True, True] [s1, s2, s3] \<longrightarrow>
       map_option difficulty (user_of (submit_all QDB user_id [s1] d) user_id) = Some ''easy'' \<and>
       map_option difficulty (user_of (submit_all QDB user_id [s1, s2] d) user_id) = Some ''easy'' \<and>
       map_option difficulty (user_of (submit_all QDB user_id [s1, s2, s3] d) user_id) = Some ''medium'') \<and>
    (user_of d user_id = Some u \<and> difficulty u = ''hard'' \<and> wrong_streak u = 0 \<and>
     list_all2 (answered QDB) [False, False] [s1, s2] \<longrightarrow>
       map_option difficulty (user_of (submit_all QDB user_id [s1] d) user_id) = Some ''hard'' \<and>
       map_option difficulty (user_of (submit_all QDB user_id [s1, s2] d) user_id) = Some ''medium'')"
proof (intro conjI impI; (elim conjE)?)
  assume "user_of d learner = Some r"
  with assms show "difficulty r \<in> set levels" by (rule reachable_difficulty)
next
  assume r: "user_of d learner = Some r" and i: "index_of levels (difficulty r) = Some i"
  let ?d' = "snd (submit_answer QDB now rnd pick d user_id t qid selected)"
  from submit_answer_rows [OF assms r, of now rnd pick user_id t qid selected]
  consider "user_of ?d' learner = Some r"
    | c where "user_of ?d' learner = Some (progress c r)"
    by blast
  then show "\<exists>r' i'. user_of ?d' learner = Some r' \<and>
                index_of levels (difficulty r') = Some i' \<and> i' \<le> i + 1 \<and> i \<le> i' + 1"
  proof cases
    case 1
    then show ?thesis using i by auto
  next
    case 2
    then show ?thesis using progress_one_step [OF i, of c] by auto
  qed
next
  assume u: "user_of d user_id = Some u" and q: "find_question QDB t qid = Inr (Some q)"
    and idx: "index_of levels (difficulty u) = Some idx"
  let ?d' = "snd (submit_answer QDB now rnd pick d user_id t qid selected)"
  let ?u' = "progress (selected = q_answer q) u"
  have "user_of ?d' user_id = Some ?u'"
    using assms u q by (rule reachable_submit_answer(1))
  moreover note progress_difficulty [OF idx, of "selected = q_answer q"]
  ultimately show "\<exists>u'. user_of ?d' user_id = Some u' \<and>
          (3 \<le> correct_streak u' \<and> idx < 2 \<longrightarrow> difficulty u' = levels ! (idx + 1)) \<and>
          (2 \<le> wrong_streak u' \<and> 0 < idx \<longrightarrow> difficulty u' = levels ! (idx - 1)) \<and>
          (\<not> (3 \<le> correct_streak u' \<and> idx < 2) \<and> \<not> (2 \<le> wrong_streak u' \<and> 0 < idx) \<longrightarrow>
             difficulty u' = difficulty u)"
    by blast
next
  assume u: "user_of d user_id = Some u" and e: "difficulty u = ''easy''" "correct_streak u = 0"
    and l: "list_all2 (answered QDB) [True, True, True] [s1, s2, s3]"
  from l have l1: "list_all2 (answered QDB) [True] [s1]"
    and l2: "list_all2 (answered QDB) [True, True] [s1, s2]" by simp_all
  show "map_option difficulty (user_of (submit_all QDB user_id [s1] d) user_id) = Some ''easy''"
    unfolding submit_all_rows [OF assms u l1] using three_correct_from_easy(1) [OF e] by simp
  show "map_option difficulty (user_of (submit_all QDB user_id [s1, s2] d) user_id) = Some ''easy''"
    unfolding submit_all_rows [OF assms u l2] using three_correct_from_easy(2) [OF e] by simp
  show "map_option difficulty (user_of (submit_all QDB user_id [s1, s2, s3] d) user_id) = Some ''medium''"
    unfolding submit_all_rows [OF assms u l] using three_correct_from_easy(3) [OF e] by simp
next
  assume u: "user_of d user_id = Some u" and e: "difficulty u = ''hard''" "wrong_streak u = 0"
    and l: "list_all2 (answered QDB) [False, False] [s1, s2]"
  from l have l1: "list_all2 (answered QDB) [False] [s1]" by simp
  show "map_option difficulty (user_of (submit_all QDB user_id [s1] d) user_id) = Some ''hard''"
    unfolding submit_all_rows [OF assms u l1] using two_wrong_from_hard(1) [OF e] by simp
  show "map_option difficulty (user_of (submit_all QDB user_id [s1, s2] d) user_id) = Some ''medium''"
    unfolding submit_all_rows [OF assms u l] using two_wrong_from_hard(2) [OF e] by simp
qed

theorem difficulty_moves_one_level_witness:
  "reachable bank new_learner \<and>
   user_of new_learner 1 =
     Some \<lparr>username = ''U1'', difficulty = ''easy'', correct_streak = 0,
           wrong_streak = 0, active_topic = ''Mixed''\<rparr> \<and>
   list_all2 (answered bank) [True, True, True]
     [(200, 0, 0, ''A'', ''Q1'', ''a''), (200, 0, 0, ''A'', ''Q1'', ''a''), (200, 0, 0, ''A'', ''Q1'', ''a'')] \<and>
   map_option difficulty (user_of (submit_all bank 1
     [(200, 0, 0, ''A'', ''Q1'', ''a''), (200, 0, 0, ''A'', ''Q1'', ''a'')] new_learner) 1) = Some ''easy'' \<and>
   map_option difficulty (user_of (submit_all bank 1
     [(200, 0, 0, ''A'', ''Q1'', ''a''), (200, 0, 0, ''A'', ''Q1'', ''a''), (200, 0, 0, ''A'', ''Q1'', ''a'')]
     new_learner) 1) = Some ''medium'' \<and>
   reachable bank four_correct \<and>
   user_of four_correct 1 =
     Some \<lparr>username = ''U1'', difficulty = ''hard'', correct_streak = 4,
           wrong_streak = 0, active_topic = ''Mixed''\<rparr> \<and>
   list_all2 (answered bank) [False, False]
     [(300, 0, 0, ''A'', ''Q1'', ''b''), (300, 0, 0, ''A'', ''Q1'', ''b'')] \<and>
   map_option difficulty (user_of (submit_all bank 1
     [(300, 0, 0, ''A'', ''Q1'', ''b'')] four_correct) 1) = Some ''hard'' \<and>
   map_option difficulty (user_of (submit_all bank 1
     [(300, 0, 0, ''A'', ''Q1'', ''b''), (300, 0, 0, ''A'', ''Q1'', ''b'')] four_correct) 1) = Some ''medium'' \<and>
   (\<exists>u'. user_of (snd (submit_answer bank 300 0 0 four_correct 1 ''A'' ''Q1'' ''a'')) 1 = Some u' \<and>
         correct_streak u' = 5 \<and> difficulty u' = ''hard'')"
proof -
  let ?u0 = "\<lparr>username = ''U1'', difficulty = ''easy'', correct_streak = 0,
           wrong_streak = 0, active_topic = ''Mixed''\<rparr>"
  let ?u4 = "\<lparr>username = ''U1'', difficulty = ''hard'', correct_streak = 4,
           wrong_streak = 0, active_topic = ''Mixed''\<rparr>"
  let ?c = "(200::int, 0::real, 0::nat, ''A'', ''Q1'', ''a'')"
  let ?w = "(300::int, 0::real, 0::nat, ''A'', ''Q1'', ''b'')"
  have lc: "list_all2 (answered bank) [True, True, True] [?c, ?c, ?c]"
    by (simp add: answered_Q1)
  have lw: "list_all2 (answered bank) [False, False] [?w, ?w]"
    by (simp add: answered_Q1)
  have i2: "index_of levels ''hard'' = Some 2"
    by (simp add: levels_def)
  note a = difficulty_moves_one_level [OF reachable_new_learner,
      where user_id = 1 and u = ?u0 and learner = 1 and r = ?u0 and i = 0
        and ?s1.0 = ?c and ?s2.0 = ?c and ?s3.0 = ?c]
  note b = difficulty_moves_one_level [OF reachable_four_correct,
      where user_id = 1 and u = ?u4 and learner = 1 and r = ?u4 and ?s1.0 = ?w and ?s2.0 = ?w
        and now = 300 and rnd = 0 and pick = 0 and t = "''A''" and qid = "''Q1''"
        and selected = "''a''" and q = Q1 and idx = 2 and i = 2]
  from a user_of_new_learner lc
  have a1: "map_option difficulty (user_of (submit_all bank 1 [?c, ?c] new_learner) 1) = Some ''easy''"
    and a2: "map_option difficulty (user_of (submit_all bank 1 [?c, ?c, ?c] new_learner) 1) = Some ''medium''"
    by simp_all
  from b user_of_four_correct lw
  have b1: "map_option difficulty (user_of (submit_all bank 1 [?w] four_correct) 1) = Some ''hard''"
    and b2: "map_option difficulty (user_of (submit_all bank 1 [?w, ?w] four_correct) 1) = Some ''medium''"
    by simp_all
  have ans: "q_answer Q1 = ''a''" by (simp add: Q1_def)
  have "user_of (snd (submit_answer bank 300 0 0 four_correct 1 ''A'' ''Q1'' ''a'')) 1 =
          Some (progress True ?u4)"
    using reachable_submit_answer(1) [OF reachable_four_correct user_of_four_correct find_Q1,
        of 300 0 0 "''a''"] ans by simp
  moreover from b user_of_four_correct find_Q1 i2
  have "\<exists>u'. user_of (snd (submit_answer bank 300 0 0 four_correct 1 ''A'' ''Q1'' ''a'')) 1 = Some u' \<and>
          (\<not> 2 \<le> wrong_streak u' \<longrightarrow> difficulty u' = ''hard'')"
    by auto
  ultimately
  have b3: "\<exists>u'. user_of (snd (submit_answer bank 300 0 0 four_correct 1 ''A'' ''Q1'' ''a'')) 1 = Some u' \<and>
         correct_streak u' = 5 \<and> difficulty u' = ''hard''"
    by (auto simp: progress_streaks)
  show ?thesis
    using reachable_new_learner user_of_new_learner lc a1 a2
      reachable_four_correct user_of_four_correct lw b1 b2 b3
    by blast
qed

subsection \<open>The candidate pool\<close>

lemma build_pool_known:
  assumes "\<forall>t \<in> set ts. map_of QDB t \<noteq> None"
  shows "build_pool QDB dif weights ts pool =
           Inr (pool @ concat (map (topic_entries QDB dif weights) ts))"
  using assms
  by (induction ts arbitrary: pool) (auto simp: topic_entries_def)

lemma build_pool_unknown:
  assumes "\<exists>t \<in> set ts. map_of QDB t = None"
  shows "build_pool QDB dif weights ts pool = Inl KeyError"
  using assms
  by (induction ts arbitrary: pool) (auto split: option.splits)

lemma scope_known:
  assumes "t = ''Mixed'' \<or> t \<in> fst ` set QDB"
  shows "\<forall>t' \<in> set (scope QDB t). map_of QDB t' \<noteq> None"
  using assms by (auto simp: scope_def map_of_eq_None_iff)

lemma walk_member: "walk r upto' pool = Some (t, q) \<Longrightarrow> \<exists>w. (t, q, w) \<in> set pool"
proof (induction pool arbitrary: upto')
  case Nil
  then show ?case by simp
next
  case (Cons e pool)
  obtain t' q' w' where e: "e = (t', q', w')" by (cases e)
  show ?case
  proof (cases "upto' + w' \<ge> r")
    case True
    with Cons.prems e show ?thesis by auto
  next
    case False
    with Cons.prems e have "walk r (upto' + w') pool = Some (t, q)" by simp
    from Cons.IH [OF this] show ?thesis by auto
  qed
qed

lemma choose_question_member:
  assumes "t = ''Mixed'' \<or> t \<in> fst ` set QDB"
    and "choose_question QDB t dif weights rnd pick = Inr (Some c)"
  shows "\<exists>t' tp. t' \<in> set (scope QDB t) \<and> map_of QDB t' = Some tp \<and>
           fst (chosen_question c) = t' \<and> snd (chosen_question c) \<in> set (questions_at tp dif)"
proof -
  let ?pool = "concat (map (topic_entries QDB dif weights) (scope QDB t))"
  have bp: "build_pool QDB dif weights (scope QDB t) [] = Inr ?pool"
    using build_pool_known [OF scope_known [OF assms(1)], of dif weights "[]"] by simp
  have mem: "(t', q, w) \<in> set ?pool \<Longrightarrow>
      \<exists>tp. t' \<in> set (scope QDB t) \<and> map_of QDB t' = Some tp \<and> q \<in> set (questions_at tp dif)"
    for t' q w
    by (cases "map_of QDB t'") (auto simp: topic_entries_def)
  from assms(2) bp have ne: "?pool \<noteq> []"
    by (auto simp: choose_question_def scope_def split: if_splits)
  show ?thesis
  proof (cases "walk (rnd * sum_list (map (\<lambda>(t, q, w). w) ?pool)) 0 ?pool")
    case None
    obtain t' q w where e: "?pool ! (pick mod length ?pool) = (t', q, w)"
      by (cases "?pool ! (pick mod length ?pool)")
    have "?pool ! (pick mod length ?pool) \<in> set ?pool"
      using ne by (intro nth_mem) simp
    then have "(t', q, w) \<in> set ?pool" by (simp add: e)
    moreover have "c = Chosen3 t' q w"
      using assms(2) bp ne None e
      by (simp add: choose_question_def scope_def Let_def split: if_splits)
    ultimately show ?thesis using mem by fastforce
  next
    case (Some tq)
    obtain t' q where tq: "tq = (t', q)" by (cases tq)
    from Some tq obtain w where "(t', q, w) \<in> set ?pool"
      using walk_member by blast
    moreover have "c = Chosen2 t' q"
      using assms(2) bp ne Some tq
      by (simp add: choose_question_def scope_def Let_def split: if_splits)
    ultimately show ?thesis using mem by fastforce
  qed
qed

subsection \<open>The empty pool\<close>

text \<open>
  C6. For \<^verbatim>\<open>Mixed\<close> or a topic of the bank: when no topic in scope has a question at
  the difficulty, \<^verbatim>\<open>choose_question\<close> returns \<^verbatim>\<open>None\<close> (it does not raise), and
  \<^verbatim>\<open>send_question\<close> on a database with its tables sends "No questions available";
  and whatever \<^verbatim>\<open>choose_question\<close> returns is a question of a topic in scope at the
  given difficulty.
\<close>

theorem empty_pool_returns_none:
  assumes "t = ''Mixed'' \<or> t \<in> fst ` set QDB"
  shows "((\<forall>t' tp. t' \<in> set (scope QDB t) \<and> map_of QDB t' = Some tp \<longrightarrow> questions_at tp dif = []) \<longrightarrow>
            choose_question QDB t dif weights rnd pick = Inr None \<and>
            (topic_stats d \<noteq> None \<longrightarrow> send_question QDB d user_id t dif rnd pick = Inr NoQuestions)) \<and>
         (choose_question QDB t dif weights rnd pick = Inr (Some c) \<longrightarrow>
            (\<exists>t' tp. t' \<in> set (scope QDB t) \<and> map_of QDB t' = Some tp \<and>
               fst (chosen_question c) = t' \<and> snd (chosen_question c) \<in> set (questions_at tp dif)))"
proof (intro conjI impI)
  assume empty: "\<forall>t' tp. t' \<in> set (scope QDB t) \<and> map_of QDB t' = Some tp \<longrightarrow> questions_at tp dif = []"
  have none: "choose_question QDB t dif ws rnd pick = Inr None" for ws
  proof -
    have "topic_entries QDB dif ws t' = []" if "t' \<in> set (scope QDB t)" for t'
      using that empty by (auto simp: topic_entries_def split: option.splits)
    then have "concat (map (topic_entries QDB dif ws) (scope QDB t)) = []"
      by simp
    then have "build_pool QDB dif ws (scope QDB t) [] = Inr []"
      using build_pool_known [OF scope_known [OF assms], of dif ws "[]"] by simp
    then show ?thesis by (simp add: choose_question_def scope_def)
  qed
  show "choose_question QDB t dif weights rnd pick = Inr None" by (rule none)
  show "send_question QDB d user_id t dif rnd pick = Inr NoQuestions" if "topic_stats d \<noteq> None"
    using that none by (auto simp: send_question_def get_topic_weights_def)
next
  assume "choose_question QDB t dif weights rnd pick = Inr (Some c)"
  with assms show "\<exists>t' tp. t' \<in> set (scope QDB t) \<and> map_of QDB t' = Some tp \<and>
               fst (chosen_question c) = t' \<and> snd (chosen_question c) \<in> set (questions_at tp dif)"
    by (rule choose_question_member)
qed

theorem empty_pool_returns_none_witness:
  "''A'' \<in> fst ` set bank \<and>
   choose_question bank ''A'' ''hard'' [''A'' \<mapsto> 1, ''B'' \<mapsto> 1] 0.5 0 = Inr None \<and>
   choose_question bank ''Mixed'' ''medium'' [''A'' \<mapsto> 1, ''B'' \<mapsto> 1] 0.5 0 = Inr None \<and>
   topic_stats new_learner \<noteq> None \<and>
   send_question bank new_learner 1 ''A'' ''hard'' 0.5 0 = Inr NoQuestions \<and>
   send_question bank new_learner 1 ''Mixed'' ''medium'' 0.5 0 = Inr NoQuestions \<and>
   choose_question bank ''A'' ''easy'' [''A'' \<mapsto> 1, ''B'' \<mapsto> 1] 0.5 0 = Inr (Some (Chosen2 ''A'' Q1))"
proof -
  have k: "''A'' \<in> fst ` set bank" by (simp add: bank_def)
  have e1: "\<forall>t' tp. t' \<in> set (scope bank ''A'') \<and> map_of bank t' = Some tp \<longrightarrow> questions_at tp ''hard'' = []"
    by (auto simp: scope_def bank_def questions_at_def)
  have e2: "\<forall>t' tp. t' \<in> set (scope bank ''Mixed'') \<and> map_of bank t' = Some tp \<longrightarrow> questions_at tp ''medium'' = []"
    by (auto simp: scope_def bank_def questions_at_def)
  note a = empty_pool_returns_none [where t = "''A''" and QDB = bank and dif = "''hard''"
      and weights = "[''A'' \<mapsto> 1, ''B'' \<mapsto> 1]" and rnd = "0.5" and pick = 0 and d = new_learner
      and user_id = 1]
  note b = empty_pool_returns_none [where t = "''Mixed''" and QDB = bank and dif = "''medium''"
      and weights = "[''A'' \<mapsto> 1, ''B'' \<mapsto> 1]" and rnd = "0.5" and pick = 0 and d = new_learner
      and user_id = 1]
  have c: "choose_question bank ''A'' ''easy'' [''A'' \<mapsto> 1, ''B'' \<mapsto> 1] 0.5 0 = Inr (Some (Chosen2 ''A'' Q1))"
    by (simp add: choose_question_def bank_def questions_at_def)
  from a k e1 weight_of_new_learner(3)
  have a1: "choose_question bank ''A'' ''hard'' [''A'' \<mapsto> 1, ''B'' \<mapsto> 1] 0.5 0 = Inr None"
    and a2: "send_question bank new_learner 1 ''A'' ''hard'' 0.5 0 = Inr NoQuestions"
    by blast+
  from b e2 weight_of_new_learner(3)
  have b1: "choose_question bank ''Mixed'' ''medium'' [''A'' \<mapsto> 1, ''B'' \<mapsto> 1] 0.5 0 = Inr None"
    and b2: "send_question bank new_learner 1 ''Mixed'' ''medium'' 0.5 0 = Inr NoQuestions"
    by blast+
  show ?thesis
    using k a1 a2 b1 b2 c weight_of_new_learner(3) by blast
qed

subsection \<open>The fallback of the walk\<close>

lemma fallback_shape:
  assumes "build_pool QDB dif weights (scope QDB t) [] = Inr pool" "pool \<noteq> []"
    and "walk (rnd * sum_list (map (\<lambda>(t, q, w). w) pool)) 0 pool = None"
  shows "\<exists>t' q w. choose_question QDB t dif weights rnd pick = Inr (Some (Chosen3 t' q w))"
  using assms
  by (cases "pool ! (pick mod length pool)")
     (simp add: choose_question_def scope_def Let_def)

text \<open>
  C5. The fallback of \<^verbatim>\<open>choose_question\<close> does not return a pair of topic and
  question: with the one question of topic \<open>A\<close>, the weight \<open>-1\<close> and the draw
  \<open>0.5\<close>, the walk ends without returning, and \<^verbatim>\<open>random.choice(pool)\<close> gives the pool
  entry of three components; \<^verbatim>\<open>send_question\<close> then raises \<^verbatim>\<open>ValueError\<close> when it
  unpacks two.
\<close>

theorem fallback_returns_pool_entry:
  "choose_question bank ''A'' ''easy'' [''A'' \<mapsto> - 1] 0.5 0 = Inr (Some (Chosen3 ''A'' Q1 (- 1))) \<and>
   send_question bank negative_weight_db 1 ''A'' ''easy'' 0.5 0 = Inl ValueError"
proof -
  have c: "choose_question bank ''A'' ''easy'' [''A'' \<mapsto> - 1] 0.5 0 =
            Inr (Some (Chosen3 ''A'' Q1 (- 1)))"
    by (simp add: choose_question_def bank_def questions_at_def)
  have w: "get_topic_weights negative_weight_db 1 = Inr [''A'' \<mapsto> - 1]"
    by (auto simp: get_topic_weights_def negative_weight_db_def)
  show ?thesis
    using c w by (simp add: send_question_def)
qed

subsection \<open>Unknown learner, topic or question\<close>

text \<open>
  C8. On the database that holds learner 1 only: an answer of learner 2 to the
  question \<open>Q1\<close> of topic \<open>A\<close> appends an attempt and then raises \<^verbatim>\<open>TypeError\<close>;
  an answer for the unknown topic \<open>Z\<close> raises \<^verbatim>\<open>KeyError\<close> and changes nothing;
  an answer for the unknown question id \<open>Q9\<close> of topic \<open>A\<close> replies "Question not
  found" and changes nothing.
\<close>

theorem unknown_learner_appends_attempt_and_raises:
  "user_of new_learner 2 = None \<and>
   submit_answer bank 200 0 0 new_learner 2 ''A'' ''Q1'' ''a'' =
     (Inl TypeError,
      new_learner\<lparr>attempts := Some [\<lparr>a_user_id = 2, a_qid = ''Q1'', a_correct = 1,
                                      a_timestamp = 200\<rparr>]\<rparr>) \<and>
   map_of bank ''Z'' = None \<and>
   submit_answer bank 200 0 0 new_learner 1 ''Z'' ''Q1'' ''a'' = (Inl KeyError, new_learner) \<and>
   find_question bank ''A'' ''Q9'' = Inr None \<and>
   submit_answer bank 200 0 0 new_learner 1 ''A'' ''Q9'' ''a'' = (Inr [QuestionNotFound], new_learner)"
proof -
  have u2: "user_of new_learner 2 = None" "get_user new_learner 2 = Inr None"
    by (simp_all add: new_learner_eq user_of_def get_user_def)
  have g1: "get_user new_learner 1 =
      Inr (Some \<lparr>username = ''U1'', difficulty = ''easy'', correct_streak = 0,
                 wrong_streak = 0, active_topic = ''Mixed''\<rparr>)"
    by (simp add: new_learner_eq get_user_def)
  have at: "attempts new_learner = None" by (simp add: new_learner_eq)
  have a: "submit_answer bank 200 0 0 new_learner 2 ''A'' ''Q1'' ''a'' =
     (Inl TypeError,
      new_learner\<lparr>attempts := Some [\<lparr>a_user_id = 2, a_qid = ''Q1'', a_correct = 1,
                                      a_timestamp = 200\<rparr>]\<rparr>)"
    using u2(2) find_Q1 at
    by (simp add: submit_answer_def cb_answer_def apply_answer_def record_attempt_def Let_def Q1_def)
  have z: "map_of bank ''Z'' = None" by (simp add: bank_def)
  have b: "submit_answer bank 200 0 0 new_learner 1 ''Z'' ''Q1'' ''a'' = (Inl KeyError, new_learner)"
    using g1 by (simp add: submit_answer_unknown_topic [OF z])
  have q9: "find_question bank ''A'' ''Q9'' = Inr None"
    by (simp add: find_question_def bank_def questions_at_def Q1_def)
  have c: "submit_answer bank 200 0 0 new_learner 1 ''A'' ''Q9'' ''a'' = (Inr [QuestionNotFound], new_learner)"
    using g1 by (simp add: submit_answer_not_found [OF q9])
  show ?thesis using u2(1) a z b q9 c by blast
qed

subsection \<open>The weighted walk\<close>

lemma total_weight_Cons [simp]: "total_weight ((t, q, w) # pool) = w + total_weight pool"
  by (simp add: total_weight_def)

lemma total_weight_Nil [simp]: "total_weight [] = 0"
  by (simp add: total_weight_def)

lemma cum_0 [simp]: "cum pool 0 = 0"
  by (simp add: cum_def)

lemma cum_Cons_Suc [simp]: "cum ((t, q, w) # pool) (Suc i) = w + cum pool i"
  by (simp add: cum_def)

lemma cum_length [simp]: "cum pool (length pool) = total_weight pool"
  by (simp add: cum_def)

lemma total_weight_nonneg: "\<forall>e \<in> set pool. 0 \<le> entry_weight e \<Longrightarrow> 0 \<le> total_weight pool"
  by (induction pool) (auto simp: entry_weight_def)

lemma cum_nonneg: "\<forall>e \<in> set pool. 0 \<le> entry_weight e \<Longrightarrow> 0 \<le> cum pool i"
  unfolding cum_def by (rule total_weight_nonneg) (auto dest: in_set_takeD)

lemma cum_Suc:
  "i < length pool \<Longrightarrow> cum pool (Suc i) = cum pool i + entry_weight (pool ! i)"
proof (induction pool arbitrary: i)
  case Nil
  then show ?case by simp
next
  case (Cons e pool)
  obtain t q w where e: "e = (t, q, w)" by (cases e)
  show ?case
  proof (cases i)
    case 0
    then show ?thesis by (simp add: e entry_weight_def cum_def)
  next
    case (Suc j)
    with Cons.prems have "j < length pool" by simp
    from Cons.IH [OF this] show ?thesis by (simp add: e Suc)
  qed
qed

lemma cum_beyond: "length pool \<le> i \<Longrightarrow> cum pool i = total_weight pool"
  by (simp add: cum_def)

lemma cum_mono:
  assumes "\<forall>e \<in> set pool. 0 \<le> entry_weight e" "i \<le> j"
  shows "cum pool i \<le> cum pool j"
proof (rule lift_Suc_mono_le [OF _ assms(2)])
  fix n
  show "cum pool n \<le> cum pool (Suc n)"
  proof (cases "n < length pool")
    case True
    then have "0 \<le> entry_weight (pool ! n)" using assms(1) by simp
    then show ?thesis using cum_Suc [OF True] by simp
  next
    case False
    then show ?thesis by (simp add: cum_beyond)
  qed
qed

lemma walk_select:
  assumes "\<forall>e \<in> set pool. 0 \<le> entry_weight e" "i < length pool"
    and "i = 0 \<or> upto' + cum pool i < r" "r \<le> upto' + cum pool (Suc i)"
  shows "walk r upto' pool = Some (entry_question (pool ! i))"
  using assms
proof (induction pool arbitrary: i upto')
  case Nil
  then show ?case by simp
next
  case (Cons e pool)
  obtain t q w where e: "e = (t, q, w)" by (cases e)
  show ?case
  proof (cases i)
    case 0
    then show ?thesis using Cons.prems(4) by (simp add: e entry_question_def)
  next
    case (Suc j)
    have nn: "\<forall>e \<in> set pool. 0 \<le> entry_weight e" using Cons.prems(1) by simp
    have j: "j < length pool" using Cons.prems(2) Suc by simp
    have lt: "upto' + (w + cum pool j) < r" using Cons.prems(3) Suc by (simp add: e)
    moreover have "0 \<le> cum pool j" using nn by (rule cum_nonneg)
    ultimately have skip: "\<not> r \<le> upto' + w" by simp
    have "walk r (upto' + w) pool = Some (entry_question (pool ! j))"
    proof (rule Cons.IH [OF nn j])
      show "j = 0 \<or> upto' + w + cum pool j < r" using lt by (simp add: add.assoc)
      show "r \<le> upto' + w + cum pool (Suc j)"
        using Cons.prems(4) Suc by (simp add: e add.assoc)
    qed
    then show ?thesis using skip by (simp add: e Suc)
  qed
qed

lemma interval_exists:
  assumes "pool \<noteq> []" "r \<le> upto' + total_weight pool"
  shows "\<exists>i < length pool. (i = 0 \<or> upto' + cum pool i < r) \<and> r \<le> upto' + cum pool (Suc i)"
  using assms
proof (induction pool arbitrary: upto')
  case Nil
  then show ?case by simp
next
  case (Cons e pool)
  obtain t q w where e: "e = (t, q, w)" by (cases e)
  show ?case
  proof (cases "r \<le> upto' + w")
    case True
    then have "(0 = (0::nat) \<or> upto' + cum (e # pool) 0 < r) \<and> r \<le> upto' + cum (e # pool) (Suc 0)"
      by (simp add: e)
    then show ?thesis by blast
  next
    case False
    with Cons.prems(2) have ne: "pool \<noteq> []" by (auto simp: e)
    have "r \<le> upto' + w + total_weight pool" using Cons.prems(2) by (simp add: e add.assoc)
    from Cons.IH [OF ne this] obtain j where j: "j < length pool"
      and lo: "j = 0 \<or> upto' + w + cum pool j < r" and hi: "r \<le> upto' + w + cum pool (Suc j)"
      by blast
    have "upto' + cum (e # pool) (Suc j) < r"
      using lo False by (auto simp: e add.assoc)
    moreover have "r \<le> upto' + cum (e # pool) (Suc (Suc j))"
      using hi by (simp add: e add.assoc)
    ultimately show ?thesis using j by (intro exI [of _ "Suc j"]) simp
  qed
qed

lemma walk_returns:
  assumes "\<forall>e \<in> set pool. 0 \<le> entry_weight e" "pool \<noteq> []" "r \<le> upto' + total_weight pool"
  shows "\<exists>i < length pool. walk r upto' pool = Some (entry_question (pool ! i))"
proof -
  from interval_exists [OF assms(2,3)] obtain i where "i < length pool"
    "i = 0 \<or> upto' + cum pool i < r" "r \<le> upto' + cum pool (Suc i)" by blast
  with walk_select [OF assms(1)] show ?thesis by blast
qed

lemma interval_unique:
  assumes "\<forall>e \<in> set pool. 0 \<le> entry_weight e"
    and "i = 0 \<or> cum pool i < r" "r \<le> cum pool (Suc i)"
    and "j = 0 \<or> cum pool j < r" "r \<le> cum pool (Suc j)"
  shows "i = j"
proof (rule ccontr)
  assume "i \<noteq> j"
  then consider "i < j" | "j < i" by linarith
  then show False
  proof cases
    case 1
    then have "cum pool (Suc i) \<le> cum pool j" using assms(1) by (intro cum_mono) simp_all
    with assms(3,4) 1 show False by auto
  next
    case 2
    then have "cum pool (Suc j) \<le> cum pool i" using assms(1) by (intro cum_mono) simp_all
    with assms(2,5) 2 show False by auto
  qed
qed

lemma walk_iff:
  assumes "\<forall>e \<in> set pool. 0 \<le> entry_weight e" "distinct (map entry_question pool)"
    and "i < length pool" "r \<le> total_weight pool"
  shows "walk r 0 pool = Some (entry_question (pool ! i)) \<longleftrightarrow>
           (i = 0 \<or> cum pool i < r) \<and> r \<le> cum pool (Suc i)"
proof
  assume w: "walk r 0 pool = Some (entry_question (pool ! i))"
  from assms(3) have "pool \<noteq> []" by auto
  from interval_exists [OF this, of r 0] assms(4) obtain j where j: "j < length pool"
    and in_j: "j = 0 \<or> cum pool j < r" "r \<le> cum pool (Suc j)" by auto
  then have "walk r 0 pool = Some (entry_question (pool ! j))"
    using walk_select [OF assms(1), of j 0 r] by simp
  with w have "map entry_question pool ! j = map entry_question pool ! i"
    using j assms(3) by simp
  then have "j = i"
    using nth_eq_iff_index_eq [OF assms(2), of j i] assms(3) j by simp
  with in_j show "(i = 0 \<or> cum pool i < r) \<and> r \<le> cum pool (Suc i)" by simp
next
  assume "(i = 0 \<or> cum pool i < r) \<and> r \<le> cum pool (Suc i)"
  then show "walk r 0 pool = Some (entry_question (pool ! i))"
    using walk_select [OF assms(1,3), of 0 r] by simp
qed

lemma choose_question_walk:
  assumes "build_pool QDB dif weights (scope QDB t) [] = Inr pool" "pool \<noteq> []"
    and "walk (rnd * total_weight pool) 0 pool = Some (t', q)"
  shows "choose_question QDB t dif weights rnd pick = Inr (Some (Chosen2 t' q))"
  using assms by (simp add: choose_question_def scope_def total_weight_def Let_def)

lemma choose_question_iff:
  assumes "\<forall>e \<in> set pool. 0 \<le> entry_weight e" "distinct (map entry_question pool)"
    and "i < length pool" "build_pool QDB dif weights (scope QDB t) [] = Inr pool"
    and "0 \<le> rnd" "rnd \<le> 1"
  shows "choose_question QDB t dif weights rnd pick =
           Inr (Some (case entry_question (pool ! i) of (t', q) \<Rightarrow> Chosen2 t' q)) \<longleftrightarrow>
         (i = 0 \<or> cum pool i < rnd * total_weight pool) \<and> rnd * total_weight pool \<le> cum pool (Suc i)"
proof -
  from assms(3) have ne: "pool \<noteq> []" by auto
  have "0 \<le> total_weight pool" using assms(1) by (rule total_weight_nonneg)
  then have r: "rnd * total_weight pool \<le> total_weight pool"
    using mult_right_mono [OF assms(6), of "total_weight pool"] by simp
  from walk_returns [OF assms(1) ne, of "rnd * total_weight pool" 0] r
  obtain j where j: "walk (rnd * total_weight pool) 0 pool = Some (entry_question (pool ! j))"
    by auto
  obtain t' q where tq: "entry_question (pool ! j) = (t', q)" by (cases "entry_question (pool ! j)")
  have c: "choose_question QDB t dif weights rnd pick = Inr (Some (Chosen2 t' q))"
    using assms(4) ne j [unfolded tq] by (rule choose_question_walk)
  have "choose_question QDB t dif weights rnd pick =
           Inr (Some (case entry_question (pool ! i) of (t', q) \<Rightarrow> Chosen2 t' q)) \<longleftrightarrow>
        walk (rnd * total_weight pool) 0 pool = Some (entry_question (pool ! i))"
    unfolding c j tq by (cases "entry_question (pool ! i)") auto
  then show ?thesis
    using walk_iff [OF assms(1,2,3) r] by simp
qed

lemma choose_question_pair:
  assumes "build_pool QDB dif weights (scope QDB t) [] = Inr pool" "pool \<noteq> []"
    and "\<forall>e \<in> set pool. 0 \<le> entry_weight e" "0 \<le> rnd" "rnd \<le> 1"
  shows "\<exists>t' q. choose_question QDB t dif weights rnd pick = Inr (Some (Chosen2 t' q))"
proof -
  have "0 \<le> total_weight pool" using assms(3) by (rule total_weight_nonneg)
  then have "rnd * total_weight pool \<le> 0 + total_weight pool"
    using mult_right_mono [OF assms(5), of "total_weight pool"] by simp
  from walk_returns [OF assms(3,2) this]
  obtain i where "walk (rnd * total_weight pool) 0 pool = Some (entry_question (pool ! i))"
    by blast
  then show ?thesis
    using choose_question_walk [OF assms(1,2), of rnd "fst (entry_question (pool ! i))"
        "snd (entry_question (pool ! i))" pick]
    by auto
qed

text \<open>
  C7. In a pool with weights that are not negative and entries that differ, the draws
  \<open>r\<close> of \<open>[0, total)\<close> for which the walk returns the entry at position \<open>i\<close> are those
  between the running total before the entry and the running total with it (the
  first bound excluded but for the first entry, the second included), two bounds
  that lie in \<open>[0, total]\<close> and differ by the weight of the entry; and the values of
  \<^verbatim>\<open>random.random()\<close> for which \<^verbatim>\<open>choose_question\<close> returns that entry are those
  whose product with the total is such a draw.
\<close>

theorem selection_proportional_to_weight:
  assumes "\<forall>e \<in> set pool. 0 \<le> entry_weight e" "distinct (map entry_question pool)"
    and "i < length pool"
  shows "{r. 0 \<le> r \<and> r < total_weight pool \<and> walk r 0 pool = Some (entry_question (pool ! i))} =
           {r. 0 \<le> r \<and> r < total_weight pool \<and> (i = 0 \<or> cum pool i < r) \<and> r \<le> cum pool (Suc i)} \<and>
         cum pool (Suc i) - cum pool i = entry_weight (pool ! i) \<and>
         0 \<le> cum pool i \<and> cum pool (Suc i) \<le> total_weight pool \<and>
         (build_pool QDB dif weights (scope QDB t) [] = Inr pool \<longrightarrow>
            {u. 0 \<le> u \<and> u < 1 \<and>
                choose_question QDB t dif weights u pick =
                  Inr (Some (case entry_question (pool ! i) of (t', q) \<Rightarrow> Chosen2 t' q))} =
            {u. 0 \<le> u \<and> u < 1 \<and> (i = 0 \<or> cum pool i < u * total_weight pool) \<and>
                u * total_weight pool \<le> cum pool (Suc i)})"
proof (intro conjI impI)
  show "{r. 0 \<le> r \<and> r < total_weight pool \<and> walk r 0 pool = Some (entry_question (pool ! i))} =
           {r. 0 \<le> r \<and> r < total_weight pool \<and> (i = 0 \<or> cum pool i < r) \<and> r \<le> cum pool (Suc i)}"
    using walk_iff [OF assms] by auto
  show "cum pool (Suc i) - cum pool i = entry_weight (pool ! i)"
    using cum_Suc [OF assms(3)] by simp
  show "0 \<le> cum pool i" using assms(1) by (rule cum_nonneg)
  have "cum pool (Suc i) \<le> cum pool (length pool)"
    using assms(1,3) by (intro cum_mono) simp_all
  then show "cum pool (Suc i) \<le> total_weight pool" by simp
next
  assume "build_pool QDB dif weights (scope QDB t) [] = Inr pool"
  from choose_question_iff [OF assms this]
  show "{u. 0 \<le> u \<and> u < 1 \<and>
                choose_question QDB t dif weights u pick =
                  Inr (Some (case entry_question (pool ! i) of (t', q) \<Rightarrow> Chosen2 t' q))} =
            {u. 0 \<le> u \<and> u < 1 \<and> (i = 0 \<or> cum pool i < u * total_weight pool) \<and>
                u * total_weight pool \<le> cum pool (Suc i)}"
    by auto
qed

lemma pool31_facts:
  "\<forall>e \<in> set pool31. 0 \<le> entry_weight e" "distinct (map entry_question pool31)"
  "build_pool bank ''easy'' [''A'' \<mapsto> 3, ''B'' \<mapsto> 1] (scope bank ''Mixed'') [] = Inr pool31"
  "total_weight pool31 = 4" "cum pool31 (Suc 0) = 3" "cum pool31 (Suc (Suc 0)) = 4"
  "entry_question (pool31 ! 0) = (''A'', Q1)" "entry_question (pool31 ! Suc 0) = (''B'', Q2)"
  by (simp_all add: pool31_def entry_weight_def entry_question_def scope_def bank_def
      questions_at_def total_weight_def cum_def)

theorem selection_proportional_to_weight_witness:
  "list_all (\<lambda>e. 0 \<le> entry_weight e) pool31 \<and> distinct (map entry_question pool31) \<and>
   build_pool bank ''easy'' [''A'' \<mapsto> 3, ''B'' \<mapsto> 1] (scope bank ''Mixed'') [] = Inr pool31 \<and>
   total_weight pool31 = 4 \<and>
   {r. 0 \<le> r \<and> r < 4 \<and> walk r 0 pool31 = Some (''A'', Q1)} = {0..3} \<and>
   {r. 0 \<le> r \<and> r < 4 \<and> walk r 0 pool31 = Some (''B'', Q2)} = {3<..<4} \<and>
   {u. 0 \<le> u \<and> u < 1 \<and>
       choose_question bank ''Mixed'' ''easy'' [''A'' \<mapsto> 3, ''B'' \<mapsto> 1] u 0 =
         Inr (Some (Chosen2 ''A'' Q1))} = {0..3/4} \<and>
   {u. 0 \<le> u \<and> u < 1 \<and>
       choose_question bank ''Mixed'' ''easy'' [''A'' \<mapsto> 3, ''B'' \<mapsto> 1] u 0 =
         Inr (Some (Chosen2 ''B'' Q2))} = {3/4<..<1}"
proof -
  let ?w = "[''A'' \<mapsto> 3::real, ''B'' \<mapsto> 1]"
  have l: "0 < length pool31" "Suc 0 < length pool31" by (simp_all add: pool31_def)
  note a = selection_proportional_to_weight [OF pool31_facts(1,2) l(1),
      of bank "''easy''" ?w "''Mixed''" 0]
  note b = selection_proportional_to_weight [OF pool31_facts(1,2) l(2),
      of bank "''easy''" ?w "''Mixed''" 0]
  from a have "{r. 0 \<le> r \<and> r < 4 \<and> walk r 0 pool31 = Some (''A'', Q1)} =
                 {r. 0 \<le> r \<and> r < 4 \<and> r \<le> 3}"
    by (simp only: pool31_facts) simp
  also have "\<dots> = {0..3}" by auto
  finally have a1: "{r. 0 \<le> r \<and> r < 4 \<and> walk r 0 pool31 = Some (''A'', Q1)} = {0..3}" .
  from a pool31_facts(3)
  have "{u. 0 \<le> u \<and> u < 1 \<and> choose_question bank ''Mixed'' ''easy'' ?w u 0 =
            Inr (Some (Chosen2 ''A'' Q1))} = {u. 0 \<le> u \<and> u < 1 \<and> u * 4 \<le> 3}"
    by (simp only: pool31_facts) simp
  also have "\<dots> = {0..3/4}" by auto
  finally have a2: "{u. 0 \<le> u \<and> u < 1 \<and> choose_question bank ''Mixed'' ''easy'' ?w u 0 =
            Inr (Some (Chosen2 ''A'' Q1))} = {0..3/4}" .
  from b have "{r. 0 \<le> r \<and> r < 4 \<and> walk r 0 pool31 = Some (''B'', Q2)} =
                 {r. 0 \<le> r \<and> r < 4 \<and> 3 < r \<and> r \<le> 4}"
    by (simp only: pool31_facts) simp
  also have "\<dots> = {3<..<4}" by auto
  finally have b1: "{r. 0 \<le> r \<and> r < 4 \<and> walk r 0 pool31 = Some (''B'', Q2)} = {3<..<4}" .
  from b pool31_facts(3)
  have "{u. 0 \<le> u \<and> u < 1 \<and> choose_question bank ''Mixed'' ''easy'' ?w u 0 =
            Inr (Some (Chosen2 ''B'' Q2))} = {u. 0 \<le> u \<and> u < 1 \<and> 3 < u * 4 \<and> u * 4 \<le> 4}"
    by (simp only: pool31_facts) simp
  also have "\<dots> = {3/4<..<1}" by auto
  finally have b2: "{u. 0 \<le> u \<and> u < 1 \<and> choose_question bank ''Mixed'' ''easy'' ?w u 0 =
            Inr (Some (Chosen2 ''B'' Q2))} = {3/4<..<1}" .
  have nn: "list_all (\<lambda>e. 0 \<le> entry_weight e) pool31"
    using pool31_facts(1) by (simp add: list_all_iff)
  show ?thesis
    using nn pool31_facts(2,3,4) a1 a2 b1 b2 by (intro conjI)
qed

end
